theory Spec2Isabelle
  imports Main "HOL-Library.Word"
begin

section \<open>JavaScript text\<close>

text \<open>
  A JavaScript string is a sequence of 16-bit code units. \<open>js\<close> turns an ASCII
  literal into such a sequence.
\<close>

type_synonym js_char = "16 word"
type_synonym js_string = "js_char list"

definition js :: "string \<Rightarrow> js_string" where
  "js s = map of_char s"

definition LBRACE :: js_char where "LBRACE = 0x7B"
definition RBRACE :: js_char where "RBRACE = 0x7D"
definition BACKTICK :: js_char where "BACKTICK = 0x60"

text \<open>\<open>String.prototype.indexOf\<close> for a one-character needle; \<open>None\<close> is the \<open>-1\<close> of JavaScript.\<close>

fun indexOf :: "js_string \<Rightarrow> js_char \<Rightarrow> nat option" where
  "indexOf [] c = None"
| "indexOf (x # xs) c = (if x = c then Some 0 else map_option Suc (indexOf xs c))"

text \<open>\<open>String.prototype.includes\<close> for a one-character needle.\<close>

definition includes_char :: "js_string \<Rightarrow> js_char \<Rightarrow> bool" where
  "includes_char s c = (c \<in> set s)"

text \<open>
  The characters \<open>String.prototype.trim\<close> removes: WhiteSpace and LineTerminator of
  ECMAScript (TAB, LF, VT, FF, CR, SP, NBSP, the Unicode space separators, LS, PS, BOM).
\<close>

definition is_js_space :: "js_char \<Rightarrow> bool" where
  "is_js_space c = (c \<in> {0x09, 0x0A, 0x0B, 0x0C, 0x0D, 0x20, 0xA0, 0x1680,
     0x2000, 0x2001, 0x2002, 0x2003, 0x2004, 0x2005, 0x2006, 0x2007, 0x2008, 0x2009, 0x200A,
     0x2028, 0x2029, 0x202F, 0x205F, 0x3000, 0xFEFF})"

definition js_trim :: "js_string \<Rightarrow> js_string" where
  "js_trim s = rev (dropWhile is_js_space (rev (dropWhile is_js_space s)))"

text \<open>
  \<open>buffer.replace(/`{3}(json)?/g, '')\<close>: every leftmost, non-overlapping run of three
  backticks is removed, together with a directly following \<open>json\<close> (the optional group is
  greedy).
\<close>

definition drop_json :: "js_string \<Rightarrow> js_string" where
  "drop_json s = (if take 4 s = js ''json'' then drop 4 s else s)"

function replace_fences :: "js_string \<Rightarrow> js_string" where
  "replace_fences [] = []"
| "replace_fences (c # cs) =
     (if take 3 (c # cs) = [BACKTICK, BACKTICK, BACKTICK]
      then replace_fences (drop_json (drop 2 cs))
      else c # replace_fences cs)"
  by pat_completeness auto
termination
  by (relation "measure length") (auto simp: drop_json_def)

section \<open>JSON values and what \<open>file.path && file.content\<close> sees\<close>

text \<open>
  The value \<open>JSON.parse\<close> returns. A number is kept as the decimal \<open>m * 10^e\<close> its
  text denotes; an object keeps its members in source order, the last of equal keys
  being the one a property read sees. The value is thus finer than the JavaScript
  object (which drops shadowed members and the spelling of numbers); reads and
  truthiness agree with it.
\<close>

datatype json =
    JNull
  | JBool bool
  | JNum int int
  | JStr js_string
  | JArr "json list"
  | JObj "(js_string \<times> json) list"

text \<open>Values a JavaScript \<open>throw\<close> can carry, as far as the code tells them apart.\<close>

datatype thrown =
    Error js_string
  | TypeError js_string
  | SyntaxError js_string
  | NotAnError js_string

datatype 'a outcome = Throws thrown | Returns 'a

text \<open>
  A number converted to a double is \<open>0\<close> exactly when its magnitude is at most
  \<open>2^-1075\<close> (round to nearest, ties to even).
\<close>

definition nonzero_double :: "int \<Rightarrow> int \<Rightarrow> bool" where
  "nonzero_double m e =
     (m \<noteq> 0 \<and> (0 \<le> e \<or> 10 ^ nat (- e) < \<bar>m\<bar> * 2 ^ 1075))"

fun truthy :: "json \<Rightarrow> bool" where
  "truthy JNull = False"
| "truthy (JBool b) = b"
| "truthy (JNum m e) = nonzero_double m e"
| "truthy (JStr s) = (s \<noteq> [])"
| "truthy (JArr xs) = True"
| "truthy (JObj kvs) = True"

text \<open>
  Reading a property whose name no prototype defines (\<open>path\<close>, \<open>content\<close>,
  \<open>default_branch\<close>): \<open>Returns None\<close> is \<open>undefined\<close>, and reading from \<open>null\<close> throws
  a TypeError. The wording of its message differs between engines; only its being a
  TypeError is used.
\<close>

fun getProperty :: "json \<Rightarrow> js_string \<Rightarrow> json option outcome" where
  "getProperty JNull k = Throws (TypeError (js ''Cannot read properties of null''))"
| "getProperty (JObj kvs) k = Returns (map_of (rev kvs) k)"
| "getProperty v k = Returns None"

definition truthy_opt :: "json option \<Rightarrow> bool" where
  "truthy_opt v = (case v of None \<Rightarrow> False | Some x \<Rightarrow> truthy x)"

section \<open>A model of the platform's \<open>JSON.parse\<close>\<close>

text \<open>
  The grammar of ECMA-404, by recursive descent. It is used where a concrete text is
  run through the parser; the theorems about the parsing loop hold for any function in
  its place.
\<close>

definition QUOTE :: js_char where "QUOTE = 0x22"
definition BACKSLASH :: js_char where "BACKSLASH = 0x5C"
definition LBRACKET :: js_char where "LBRACKET = 0x5B"
definition RBRACKET :: js_char where "RBRACKET = 0x5D"
definition COMMA :: js_char where "COMMA = 0x2C"
definition COLON :: js_char where "COLON = 0x3A"
definition MINUS :: js_char where "MINUS = 0x2D"
definition PLUS :: js_char where "PLUS = 0x2B"
definition DOT :: js_char where "DOT = 0x2E"
definition SLASH :: js_char where "SLASH = 0x2F"

definition is_json_space :: "js_char \<Rightarrow> bool" where
  "is_json_space c = (c = 0x20 \<or> c = 0x09 \<or> c = 0x0A \<or> c = 0x0D)"

definition skip_space :: "js_string \<Rightarrow> js_string" where
  "skip_space s = dropWhile is_json_space s"

definition is_digit :: "js_char \<Rightarrow> bool" where
  "is_digit c = (0x30 \<le> c \<and> c \<le> 0x39)"

definition digits_value :: "js_string \<Rightarrow> int" where
  "digits_value ds = foldl (\<lambda>a c. 10 * a + (uint c - 48)) 0 ds"

definition hex_digit :: "js_char \<Rightarrow> js_char option" where
  "hex_digit c =
     (if 0x30 \<le> c \<and> c \<le> 0x39 then Some (c - 0x30)
      else if 0x61 \<le> c \<and> c \<le> 0x66 then Some (c - 0x57)
      else if 0x41 \<le> c \<and> c \<le> 0x46 then Some (c - 0x37)
      else None)"

definition hex4 :: "js_string \<Rightarrow> js_char option" where
  "hex4 hs =
     (case map hex_digit hs of
        [Some a, Some b, Some c, Some d] \<Rightarrow> Some (a * 0x1000 + b * 0x100 + c * 0x10 + d)
      | _ \<Rightarrow> None)"

definition unescape :: "js_char \<Rightarrow> js_char option" where
  "unescape c =
     (if c = QUOTE \<or> c = BACKSLASH \<or> c = SLASH then Some c
      else if c = 0x62 then Some 0x08
      else if c = 0x66 then Some 0x0C
      else if c = 0x6E then Some 0x0A
      else if c = 0x72 then Some 0x0D
      else if c = 0x74 then Some 0x09
      else None)"

text \<open>A string, read from just after its opening quote: its value and the text after it.\<close>

function parse_string :: "js_string \<Rightarrow> (js_string \<times> js_string) option" where
  "parse_string [] = None"
| "parse_string (c # cs) =
     (if c = QUOTE then Some ([], cs)
      else if c = BACKSLASH then
        (case cs of
           [] \<Rightarrow> None
         | e # cs' \<Rightarrow>
             if e = 0x75 then
               (case hex4 (take 4 cs') of
                  None \<Rightarrow> None
                | Some u \<Rightarrow> map_option (\<lambda>(s, r). (u # s, r)) (parse_string (drop 4 cs')))
             else
               (case unescape e of
                  None \<Rightarrow> None
                | Some u \<Rightarrow> map_option (\<lambda>(s, r). (u # s, r)) (parse_string cs')))
      else if c < 0x20 then None
      else map_option (\<lambda>(s, r). (c # s, r)) (parse_string cs))"
  by pat_completeness auto
termination
  by (relation "measure length") auto

definition parse_number :: "js_string \<Rightarrow> (json \<times> js_string) option" where
  "parse_number cs =
     (let neg = (case cs of [] \<Rightarrow> False | c # _ \<Rightarrow> c = MINUS);
          cs1 = (if neg then drop 1 cs else cs);
          ip = takeWhile is_digit cs1;
          cs2 = dropWhile is_digit cs1;
          has_frac = (case cs2 of [] \<Rightarrow> False | c # _ \<Rightarrow> c = DOT);
          fp = (if has_frac then takeWhile is_digit (drop 1 cs2) else []);
          cs3 = (if has_frac then dropWhile is_digit (drop 1 cs2) else cs2);
          has_exp = (case cs3 of [] \<Rightarrow> False | c # _ \<Rightarrow> c = 0x65 \<or> c = 0x45);
          cs4 = (if has_exp then drop 1 cs3 else cs3);
          exp_neg = (has_exp \<and> (case cs4 of [] \<Rightarrow> False | c # _ \<Rightarrow> c = MINUS));
          exp_sign = (has_exp \<and> (case cs4 of [] \<Rightarrow> False | c # _ \<Rightarrow> c = MINUS \<or> c = PLUS));
          cs5 = (if exp_sign then drop 1 cs4 else cs4);
          ep = (if has_exp then takeWhile is_digit cs5 else []);
          cs6 = (if has_exp then dropWhile is_digit cs5 else cs3)
      in if ip = [] \<or> (1 < length ip \<and> take 1 ip = [0x30]) \<or> (has_frac \<and> fp = [])
            \<or> (has_exp \<and> ep = [])
         then None
         else Some (JNum ((if neg then - 1 else 1) * digits_value (ip @ fp))
                         ((if exp_neg then - 1 else 1) * digits_value ep - int (length fp)),
                    cs6))"

text \<open>
  Values, array elements and object members. The first argument bounds the depth of
  the calls; twice the length of the text is enough, since every second call has
  consumed a character.
\<close>

fun parse_value :: "nat \<Rightarrow> js_string \<Rightarrow> (json \<times> js_string) option"
  and parse_elements :: "nat \<Rightarrow> js_string \<Rightarrow> (json list \<times> js_string) option"
  and parse_members :: "nat \<Rightarrow> js_string \<Rightarrow> ((js_string \<times> json) list \<times> js_string) option"
where
  "parse_value 0 cs = None"
| "parse_value (Suc n) cs =
     (case skip_space cs of
        [] \<Rightarrow> None
      | c # rest \<Rightarrow>
          if c = LBRACE then
            (case skip_space rest of
               [] \<Rightarrow> None
             | d # rest' \<Rightarrow>
                 if d = RBRACE then Some (JObj [], rest')
                 else map_option (\<lambda>(kvs, r). (JObj kvs, r)) (parse_members n rest))
          else if c = LBRACKET then
            (case skip_space rest of
               [] \<Rightarrow> None
             | d # rest' \<Rightarrow>
                 if d = RBRACKET then Some (JArr [], rest')
                 else map_option (\<lambda>(vs, r). (JArr vs, r)) (parse_elements n rest))
          else if c = QUOTE then map_option (\<lambda>(s, r). (JStr s, r)) (parse_string rest)
          else if take 4 (c # rest) = js ''true'' then Some (JBool True, drop 3 rest)
          else if take 5 (c # rest) = js ''false'' then Some (JBool False, drop 4 rest)
          else if take 4 (c # rest) = js ''null'' then Some (JNull, drop 3 rest)
          else parse_number (c # rest))"
| "parse_elements 0 cs = None"
| "parse_elements (Suc n) cs =
     (case parse_value n cs of
        None \<Rightarrow> None
      | Some (v, rest) \<Rightarrow>
          (case skip_space rest of
             [] \<Rightarrow> None
           | c # rest' \<Rightarrow>
               if c = COMMA then map_option (\<lambda>(vs, r). (v # vs, r)) (parse_elements n rest')
               else if c = RBRACKET then Some ([v], rest')
               else None))"
| "parse_members 0 cs = None"
| "parse_members (Suc n) cs =
     (case skip_space cs of
        [] \<Rightarrow> None
      | c # rest \<Rightarrow>
          if c \<noteq> QUOTE then None
          else
            (case parse_string rest of
               None \<Rightarrow> None
             | Some (k, rest1) \<Rightarrow>
                 (case skip_space rest1 of
                    [] \<Rightarrow> None
                  | c1 # rest2 \<Rightarrow>
                      if c1 \<noteq> COLON then None
                      else
                        (case parse_value n rest2 of
                           None \<Rightarrow> None
                         | Some (v, rest3) \<Rightarrow>
                             (case skip_space rest3 of
                                [] \<Rightarrow> None
                              | c3 # rest4 \<Rightarrow>
                                  if c3 = COMMA then
                                    map_option (\<lambda>(kvs, r). ((k, v) # kvs, r)) (parse_members n rest4)
                                  else if c3 = RBRACE then Some ([(k, v)], rest4)
                                  else None)))))"

definition JSON_parse :: "js_string \<Rightarrow> json option" where
  "JSON_parse s =
     (case parse_value (2 * length s + 2) s of
        None \<Rightarrow> None
      | Some (v, rest) \<Rightarrow> if skip_space rest = [] then Some v else None)"

section \<open>Application state (app.component.ts)\<close>

datatype AppState = idle | loading | analyzed | reimplemented | error

datatype Status = pending | in_progress | complete | status_error

record StatusStep =
  step_id :: nat
  step_text :: js_string
  step_status :: Status

record RepoFile =
  path :: js_string
  content :: js_string

text \<open>
  \<open>ReimplementedFile\<close> is only a compile-time cast of what \<open>JSON.parse\<close> returned, so the
  list holds JSON values.
\<close>

type_synonym ReimplementedFile = json

record App =
  repoUrl :: js_string
  githubToken :: js_string
  appState :: AppState
  errorMessage :: "js_string option"
  analysisResult :: "js_string option"
  reimplementedFiles :: "ReimplementedFile list option"
  fetchedFiles :: "RepoFile list option"
  expandedFile :: "js_string option"
  statusSteps :: "StatusStep list"

definition initialSteps :: "StatusStep list" where
  "initialSteps =
    [\<lparr>step_id = 1, step_text = js ''Download and read all repository files'', step_status = pending\<rparr>,
     \<lparr>step_id = 2, step_text = js ''AI selects relevant files for analysis'', step_status = pending\<rparr>,
     \<lparr>step_id = 3, step_text = js ''AI analyzes code architecture'', step_status = pending\<rparr>,
     \<lparr>step_id = 4, step_text = js ''AI re-implements the project'', step_status = pending\<rparr>,
     \<lparr>step_id = 5, step_text = js ''Ready for download'', step_status = pending\<rparr>]"

definition initialApp :: App where
  "initialApp = \<lparr>repoUrl = js ''https://github.com/angular/angular'', githubToken = [],
     appState = idle, errorMessage = None, analysisResult = None, reimplementedFiles = None,
     fetchedFiles = None, expandedFile = None, statusSteps = initialSteps\<rparr>"

definition resetState :: "App \<Rightarrow> App" where
  "resetState s = s\<lparr>appState := idle, errorMessage := None, analysisResult := None,
     reimplementedFiles := None, fetchedFiles := None, expandedFile := None,
     statusSteps := initialSteps\<rparr>"

definition updateStatus :: "nat \<Rightarrow> Status \<Rightarrow> App \<Rightarrow> App" where
  "updateStatus i st s =
     s\<lparr>statusSteps := map (\<lambda>step. if step_id step = i then step\<lparr>step_status := st\<rparr> else step)
                          (statusSteps s)\<rparr>"

definition handleError :: "js_string \<Rightarrow> App \<Rightarrow> App" where
  "handleError message s =
     (let s1 = s\<lparr>appState := error\<rparr>;
          s2 = s1\<lparr>errorMessage := Some message\<rparr>
      in case find (\<lambda>st. step_status st = in_progress) (statusSteps s2) of
           None \<Rightarrow> s2
         | Some inProgressStep \<Rightarrow> updateStatus (step_id inProgressStep) status_error s2)"

text \<open>\<open>this.reimplementedFiles.update(files => [...(files ?? []), file])\<close>\<close>

definition appendFile :: "ReimplementedFile \<Rightarrow> App \<Rightarrow> App" where
  "appendFile file s =
     s\<lparr>reimplementedFiles :=
         Some ((case reimplementedFiles s of None \<Rightarrow> [] | Some files \<Rightarrow> files) @ [file])\<rparr>"

text \<open>\<open>this.analysisResult.update(current => (current ?? '') + chunk.text)\<close>\<close>

definition appendAnalysis :: "js_string \<Rightarrow> App \<Rightarrow> App" where
  "appendAnalysis chunk s =
     s\<lparr>analysisResult :=
         Some ((case analysisResult s of None \<Rightarrow> [] | Some current \<Rightarrow> current) @ chunk)\<rparr>"

text \<open>
  A run is followed through every state the signals take: the current state and the
  earlier ones, newest first. Each signal write or state-changing helper call adds one.
\<close>

type_synonym run = "App \<times> App list"

definition current :: "run \<Rightarrow> App" where
  "current r = fst r"

definition commit :: "(App \<Rightarrow> App) \<Rightarrow> run \<Rightarrow> run" where
  "commit f r = (f (fst r), fst r # snd r)"

definition states :: "run \<Rightarrow> App list" where
  "states r = rev (fst r # snd r)"

section \<open>The stream parser of stage 4 (onAnalyzeRepo, lines 89-142)\<close>

text \<open>
  The brace-counting \<open>for\<close> loop, started on the characters from index \<open>i\<close> on with the
  count so far. \<open>None\<close> is \<open>objectEndIndex === -1\<close>.
\<close>

fun findObjectEnd :: "js_string \<Rightarrow> nat \<Rightarrow> int \<Rightarrow> nat option" where
  "findObjectEnd [] i braceCount = None"
| "findObjectEnd (c # cs) i braceCount =
     (if c = LBRACE then findObjectEnd cs (i + 1) (braceCount + 1)
      else if c = RBRACE then
        (if braceCount - 1 = 0 then Some i else findObjectEnd cs (i + 1) (braceCount - 1))
      else findObjectEnd cs (i + 1) braceCount)"

text \<open>
  The \<open>try\<close> block around \<open>JSON.parse\<close>. \<open>JSON.parse\<close> is the platform's; it is a
  parameter, \<open>None\<close> being its SyntaxError. The \<open>catch\<close> only logs, also for the TypeError
  of reading a property of \<open>null\<close>.
\<close>

definition tryParse :: "(js_string \<Rightarrow> json option) \<Rightarrow> js_string \<Rightarrow> run \<Rightarrow> run" where
  "tryParse parse objectStr r =
     (case parse objectStr of
        None \<Rightarrow> r
      | Some file \<Rightarrow>
          (case getProperty file (js ''path'') of
             Throws e \<Rightarrow> r
           | Returns p \<Rightarrow>
               if truthy_opt p then
                 (case getProperty file (js ''content'') of
                    Throws e \<Rightarrow> r
                  | Returns c \<Rightarrow> if truthy_opt c then commit (appendFile file) r else r)
               else r))"

text \<open>The \<open>while (true)\<close> loop: one extraction pass over the buffer.\<close>

function processBuffer ::
  "(js_string \<Rightarrow> json option) \<Rightarrow> run \<times> js_string \<Rightarrow> run \<times> js_string" where
  "processBuffer parse (r, buffer) =
     (case indexOf buffer LBRACE of
        None \<Rightarrow>
          (let buffer1 = (if \<not> includes_char buffer RBRACE
                          then js_trim (replace_fences buffer) else buffer);
               buffer2 = (if js_trim buffer1 = [] then [] else buffer1)
           in (r, buffer2))
      | Some objectStartIndex \<Rightarrow>
          (let buffer1 = drop objectStartIndex buffer
           in case findObjectEnd buffer1 0 0 of
                Some objectEndIndex \<Rightarrow>
                  (let objectStr = take (objectEndIndex + 1) buffer1;
                       buffer2 = drop (objectEndIndex + 1) buffer1
                   in processBuffer parse (tryParse parse objectStr r, buffer2))
              | None \<Rightarrow> (r, buffer1)))"
  by pat_completeness auto
termination
proof (relation "measure (\<lambda>(parse, r, buffer). length buffer)", goal_cases)
  case 1
  show ?case by simp
next
  case (2 parse r buffer objectStartIndex buffer1 objectEndIndex objectStr buffer2)
  from 2(2,3) have "buffer1 \<noteq> []"
    by auto
  then have "length (drop (objectEndIndex + 1) buffer1) < length buffer1"
    by simp
  also have "length buffer1 \<le> length buffer"
    using 2(2) by simp
  finally show ?case
    using 2(5) by simp
qed

text \<open>\<open>for await (const chunk of reimplementationStream) { buffer += chunk.text; ... }\<close>\<close>

definition feedChunk ::
  "(js_string \<Rightarrow> json option) \<Rightarrow> run \<times> js_string \<Rightarrow> js_string \<Rightarrow> run \<times> js_string" where
  "feedChunk parse st chunk = processBuffer parse (fst st, snd st @ chunk)"

definition feedChunks ::
  "(js_string \<Rightarrow> json option) \<Rightarrow> run \<times> js_string \<Rightarrow> js_string list \<Rightarrow> run \<times> js_string" where
  "feedChunks parse st chunks = foldl (feedChunk parse) st chunks"

section \<open>The GitHub service (github.service.ts)\<close>

record Response =
  status :: nat
  statusText :: js_string
  json_body :: "json outcome"

text \<open>\<open>response.ok\<close>\<close>

definition ok :: "Response \<Rightarrow> bool" where
  "ok response = (200 \<le> status response \<and> status response \<le> 299)"

text \<open>A number inside a template literal.\<close>

function show_nat :: "nat \<Rightarrow> js_string" where
  "show_nat n = (if n < 10 then [of_nat (48 + n)] else show_nat (n div 10) @ [of_nat (48 + n mod 10)])"
  by pat_completeness auto
termination
  by (relation "measure id") auto

definition GITHUB_API_BASE :: js_string where
  "GITHUB_API_BASE = js ''https://api.github.com/repos''"

text \<open>\<open>String.prototype.split\<close> with a one-character separator.\<close>

fun split_on :: "js_char \<Rightarrow> js_string \<Rightarrow> js_string list" where
  "split_on c [] = [[]]"
| "split_on c (x # xs) =
     (if x = c then [] # split_on c xs
      else (case split_on c xs of [] \<Rightarrow> [[x]] | p # ps \<Rightarrow> (x # p) # ps))"

text \<open>
  \<open>new URL(url)\<close> is the platform's: \<open>parseURL\<close> gives the host name and the path name, or
  \<open>None\<close> when the constructor throws. Whatever is thrown inside the \<open>try\<close> is replaced
  by the one message of the \<open>catch\<close>.
\<close>

definition parseGithubUrl ::
  "(js_string \<Rightarrow> (js_string \<times> js_string) option) \<Rightarrow> js_string \<Rightarrow> (js_string \<times> js_string) outcome" where
  "parseGithubUrl parseURL url =
     (case parseURL url of
        None \<Rightarrow> Throws (Error (js ''Invalid URL provided.''))
      | Some (hostname, pathname) \<Rightarrow>
          if hostname \<noteq> js ''github.com'' then Throws (Error (js ''Invalid URL provided.''))
          else
            (case filter (\<lambda>p. p \<noteq> []) (split_on SLASH pathname) of
               owner # repo # _ \<Rightarrow> Returns (owner, repo)
             | _ \<Rightarrow> Throws (Error (js ''Invalid URL provided.''))))"

definition getHeaders :: "js_string \<Rightarrow> (js_string \<times> js_string) list" where
  "getHeaders token =
     [(js ''Accept'', js ''application/vnd.github.v3+json'')]
     @ (if token \<noteq> [] then [(js ''Authorization'', js ''Bearer '' @ token)] else [])"

definition networkErrorMessage :: js_string where
  "networkErrorMessage =
     js ''A network error occurred trying to contact the GitHub API. This could be due to:'' @ [0x0A]
     @ js ''1. No internet connection.'' @ [0x0A]
     @ js ''2. A browser extension (like an ad-blocker) blocking the request.'' @ [0x0A]
     @ js ''3. A firewall or proxy blocking the connection.'' @ [0x0A]
     @ js ''4. A Cross-Origin (CORS) issue.'' @ [0x0A, 0x0A]
     @ js ''Please check your browser'' @ [0x27]
     @ js ''s developer console (F12) for more specific error details.''"

text \<open>
  What one call of \<open>performFetch\<close> did: its result, the backoff delays it waited, in
  order, and the number of \<open>fetch\<close> calls made so far.
\<close>

record FetchLog =
  result :: "Response outcome"
  waits :: "nat list"
  calls :: nat

text \<open>
  \<open>fetch k\<close> is the outcome of the \<open>k\<close>-th \<open>fetch(url, options)\<close> of this request,
  counting from 0. The delays stay exact doubles for every number of retries the code
  passes (3, from 300 ms).
\<close>

function performFetch :: "(nat \<Rightarrow> Response outcome) \<Rightarrow> nat \<Rightarrow> nat \<Rightarrow> nat \<Rightarrow> FetchLog" where
  "performFetch fetch k retries backoff =
     (case fetch k of
        Returns response \<Rightarrow>
          if 500 \<le> status response \<and> 0 < retries then
            (let l = performFetch fetch (k + 1) (retries - 1) (backoff * 2)
             in l\<lparr>waits := backoff # waits l\<rparr>)
          else \<lparr>result = Returns response, waits = [], calls = k + 1\<rparr>
      | Throws e \<Rightarrow>
          if e = TypeError (js ''Failed to fetch'') \<and> 0 < retries then
            (let l = performFetch fetch (k + 1) (retries - 1) (backoff * 2)
             in l\<lparr>waits := backoff # waits l\<rparr>)
          else if e = TypeError (js ''Failed to fetch'') then
            \<lparr>result = Throws (Error networkErrorMessage), waits = [], calls = k + 1\<rparr>
          else \<lparr>result = Throws e, waits = [], calls = k + 1\<rparr>)"
  by pat_completeness auto
termination
  by (relation "measure (\<lambda>(fetch, k, retries, backoff). retries)") auto

definition getDefaultBranch ::
  "(js_string \<Rightarrow> (js_string \<times> js_string) list \<Rightarrow> nat \<Rightarrow> Response outcome)
     \<Rightarrow> js_string \<Rightarrow> js_string \<Rightarrow> js_string \<Rightarrow> json outcome" where
  "getDefaultBranch fetch owner repo token =
     (let url = GITHUB_API_BASE @ js ''/'' @ owner @ js ''/'' @ repo
      in case result (performFetch (fetch url (getHeaders token)) 0 3 300) of
           Throws e \<Rightarrow> Throws e
         | Returns response \<Rightarrow>
             if \<not> ok response then
               (if status response = 403 then
                  Throws (Error (js ''GitHub API rate limit exceeded. Please provide a Personal Access Token to continue.''))
                else if status response = 404 then
                  Throws (Error (js ''Repository not found. It may be private or spelled incorrectly.''))
                else if status response = 401 then
                  Throws (Error (js ''The provided GitHub token is invalid or expired.''))
                else
                  Throws (Error (js ''Failed to fetch repository details ('' @ show_nat (status response)
                                 @ js '' '' @ statusText response @ js '').'')))
             else
               (case json_body response of
                  Throws e \<Rightarrow> Throws e
                | Returns repoDetails \<Rightarrow>
                    (case getProperty repoDetails (js ''default_branch'') of
                       Throws e \<Rightarrow> Throws e
                     | Returns None \<Rightarrow>
                         Throws (Error (js ''Could not determine the default branch for the repository.''))
                     | Returns (Some branch) \<Rightarrow>
                         if truthy branch then Returns branch
                         else Throws (Error (js ''Could not determine the default branch for the repository.'')))))"

text \<open>\<open>e instanceof Error ? e.message : String(e)\<close>; a non-error carries its string form.\<close>

fun message_or_string :: "thrown \<Rightarrow> js_string" where
  "message_or_string (Error m) = m"
| "message_or_string (TypeError m) = m"
| "message_or_string (SyntaxError m) = m"
| "message_or_string (NotAnError s) = s"

text \<open>
  \<open>getRepoFiles\<close>. What follows \<open>getDefaultBranch\<close> inside the \<open>try\<close> (the branch details,
  the recursive tree and the batched blob downloads) enters as \<open>fetchRest\<close>, its outcome
  for the branch found.
\<close>

definition getRepoFiles ::
  "(js_string \<Rightarrow> (js_string \<times> js_string) list \<Rightarrow> nat \<Rightarrow> Response outcome)
     \<Rightarrow> (json \<Rightarrow> RepoFile list outcome) \<Rightarrow> js_string \<Rightarrow> js_string \<Rightarrow> js_string
     \<Rightarrow> RepoFile list outcome" where
  "getRepoFiles fetch fetchRest owner repo token =
     (case (case getDefaultBranch fetch owner repo token of
              Throws e \<Rightarrow> Throws e
            | Returns branch \<Rightarrow> fetchRest branch) of
        Throws e \<Rightarrow>
          Throws (Error (js ''Could not download repository. Reason: '' @ message_or_string e))
      | Returns allFiles \<Rightarrow> Returns allFiles)"

section \<open>The run (onAnalyzeRepo)\<close>

text \<open>An asynchronous stream: the chunk texts it delivers, and what it throws after them, if anything.\<close>

record Stream =
  chunks :: "js_string list"
  failure :: "thrown option"

text \<open>Everything outside the program that a run depends on.\<close>

record Env =
  parseURL :: "js_string \<Rightarrow> (js_string \<times> js_string) option"
  fetch :: "js_string \<Rightarrow> (js_string \<times> js_string) list \<Rightarrow> nat \<Rightarrow> Response outcome"
  fetchRest :: "json \<Rightarrow> RepoFile list outcome"
  selectRelevantFiles :: "js_string list \<Rightarrow> js_string list outcome"
  analyzeCode :: "RepoFile list \<Rightarrow> Stream outcome"
  reimplementCode :: "RepoFile list \<Rightarrow> js_string option \<Rightarrow> Stream outcome"
  parseJSON :: "js_string \<Rightarrow> json option"

text \<open>\<open>error instanceof Error ? error.message : 'An unknown error occurred.'\<close>\<close>

fun message_of :: "thrown \<Rightarrow> js_string" where
  "message_of (Error m) = m"
| "message_of (TypeError m) = m"
| "message_of (SyntaxError m) = m"
| "message_of (NotAnError s) = js ''An unknown error occurred.''"

text \<open>The \<open>catch\<close> block of \<open>onAnalyzeRepo\<close>.\<close>

definition catchError :: "thrown \<Rightarrow> run \<Rightarrow> run" where
  "catchError e r = commit (handleError (message_of e)) r"

text \<open>Lines 85 to 147: stage 4, and stage 5 after it.\<close>

definition stage4 :: "Env \<Rightarrow> RepoFile list \<Rightarrow> run \<Rightarrow> run" where
  "stage4 env relevantFiles r0 =
     (let r1 = commit (updateStatus 4 in_progress) r0;
          r2 = commit (\<lambda>s. s\<lparr>reimplementedFiles := Some []\<rparr>) r1
      in case reimplementCode env relevantFiles (analysisResult (current r2)) of
           Throws e \<Rightarrow> catchError e r2
         | Returns reimplementationStream \<Rightarrow>
             (let r3 = fst (feedChunks (parseJSON env) (r2, []) (chunks reimplementationStream))
              in case failure reimplementationStream of
                   Some e \<Rightarrow> catchError e r3
                 | None \<Rightarrow>
                     commit (\<lambda>s. s\<lparr>appState := reimplemented\<rparr>)
                       (commit (updateStatus 5 complete)
                         (commit (updateStatus 4 complete) r3))))"

text \<open>Lines 76 to 83: stage 3.\<close>

definition stage3 :: "Env \<Rightarrow> RepoFile list \<Rightarrow> run \<Rightarrow> run" where
  "stage3 env relevantFiles r0 =
     (let r1 = commit (updateStatus 3 in_progress) r0
      in case analyzeCode env relevantFiles of
           Throws e \<Rightarrow> catchError e r1
         | Returns analysisStream \<Rightarrow>
             (let r2 = commit (\<lambda>s. s\<lparr>analysisResult := Some []\<rparr>) r1;
                  r3 = foldl (\<lambda>r chunk. commit (appendAnalysis chunk) r) r2 (chunks analysisStream)
              in case failure analysisStream of
                   Some e \<Rightarrow> catchError e r3
                 | None \<Rightarrow>
                     stage4 env relevantFiles
                       (commit (\<lambda>s. s\<lparr>appState := analyzed\<rparr>)
                         (commit (updateStatus 3 complete) r3))))"

text \<open>Lines 68 to 74: stage 2.\<close>

definition stage2 :: "Env \<Rightarrow> RepoFile list \<Rightarrow> run \<Rightarrow> run" where
  "stage2 env allFiles r0 =
     (let allFilePaths = map path allFiles;
          r1 = commit (updateStatus 2 in_progress) r0
      in case selectRelevantFiles env allFilePaths of
           Throws e \<Rightarrow> catchError e r1
         | Returns relevantFilePaths \<Rightarrow>
             (let r2 = commit (updateStatus 2 complete) r1;
                  relevantFiles = filter (\<lambda>f. path f \<in> set relevantFilePaths) allFiles;
                  r3 = commit (\<lambda>s. s\<lparr>fetchedFiles := Some relevantFiles\<rparr>) r2
              in stage3 env relevantFiles r3))"

definition onAnalyzeRepo :: "Env \<Rightarrow> run \<Rightarrow> run" where
  "onAnalyzeRepo env r0 =
     (let url = repoUrl (current r0);
          token = githubToken (current r0)
      in if url = [] then
           commit (handleError (js ''Please enter a valid GitHub repository URL.'')) r0
         else
           (let r1 = commit (\<lambda>s. s\<lparr>appState := loading\<rparr>) (commit resetState r0)
            in case parseGithubUrl (parseURL env) url of
                 Throws e \<Rightarrow> catchError e r1
               | Returns (owner, repo) \<Rightarrow>
                   (let r2 = commit (updateStatus 1 in_progress) r1
                    in case getRepoFiles (fetch env) (fetchRest env) owner repo token of
                         Throws e \<Rightarrow> catchError e r2
                       | Returns allFiles \<Rightarrow>
                           (let r3 = commit (updateStatus 1 complete) r2
                            in if allFiles = [] then
                                 commit (handleError
                                   (js ''Repository appears to be empty or contains no readable files.'')) r3
                               else stage2 env allFiles r3))))"

section \<open>Sample inputs\<close>

text \<open>A repository of two files and a service that answers every call; the concrete runs below vary it.\<close>

definition sampleFiles :: "RepoFile list" where
  "sampleFiles = [\<lparr>path = js ''a.ts'', content = js ''let a''\<rparr>, \<lparr>path = js ''b.ts'', content = js ''let b''\<rparr>]"

definition sampleEnv :: Env where
  \<open>sampleEnv =
     \<lparr>parseURL = (\<lambda>url. Some (js ''github.com'', js ''/angular/angular'')),
      fetch = (\<lambda>url headers k.
        Returns \<lparr>status = 200, statusText = js ''OK'',
                 json_body = Returns (JObj [(js ''default_branch'', JStr (js ''main''))])\<rparr>),
      fetchRest = (\<lambda>branch. Returns sampleFiles),
      selectRelevantFiles = (\<lambda>paths. Returns [js ''a.ts'']),
      analyzeCode = (\<lambda>files. Returns \<lparr>chunks = [js ''# Rep'', js ''ort''], failure = None\<rparr>),
      reimplementCode = (\<lambda>files analysis.
        Returns \<lparr>chunks = [js ''{"path":"a.'', js ''ts","content":"x"}{"path":"b.ts",''],
                 failure = None\<rparr>),
      parseJSON = JSON_parse\<rparr>\<close>

text \<open>The sample service with a re-implementation stream that breaks after its first object.\<close>

definition brokenStreamEnv :: Env where
  \<open>brokenStreamEnv =
     sampleEnv\<lparr>reimplementCode := \<lambda>files analysis.
        Returns \<lparr>chunks = [js ''{"path":"a.ts","content":"x"}{"pa''],
                 failure = Some (Error (js ''stream broke''))\<rparr>\<rparr>\<close>

text \<open>The sample service for a repository without readable files.\<close>

definition emptyRepoEnv :: Env where
  "emptyRepoEnv = sampleEnv\<lparr>fetchRest := \<lambda>branch. Returns []\<rparr>"

section \<open>Notions used to state the properties\<close>

text \<open>The buffer from its first opening brace on: what \<open>buffer.substring(objectStartIndex)\<close> keeps.\<close>

definition fromBrace :: "js_string \<Rightarrow> js_string" where
  "fromBrace b = dropWhile (\<lambda>c. c \<noteq> LBRACE) b"

text \<open>What the branch without an opening brace leaves of the buffer.\<close>

definition cleanup :: "js_string \<Rightarrow> js_string" where
  "cleanup buffer =
     (let buffer1 = (if \<not> includes_char buffer RBRACE
                     then js_trim (replace_fences buffer) else buffer);
          buffer2 = (if js_trim buffer1 = [] then [] else buffer1)
      in buffer2)"

text \<open>Two buffers are alike when they agree from their first opening brace on.\<close>

definition alike :: "js_string \<Rightarrow> js_string \<Rightarrow> bool" where
  "alike b b' = (fromBrace b = fromBrace b')"

text \<open>The test \<open>file.path && file.content\<close>, false also where reading the property throws.\<close>

definition accepted :: "json \<Rightarrow> bool" where
  "accepted file =
     (case getProperty file (js ''path'') of
        Throws e \<Rightarrow> False
      | Returns p \<Rightarrow>
          truthy_opt p \<and>
          (case getProperty file (js ''content'') of
             Throws e \<Rightarrow> False
           | Returns c \<Rightarrow> truthy_opt c))"

text \<open>The balanced spans one pass over a text hands to \<open>JSON.parse\<close>, in order.\<close>

function candidates :: "js_string \<Rightarrow> js_string list" where
  "candidates b =
     (if LBRACE \<notin> set b then []
      else case findObjectEnd (fromBrace b) 0 0 of
             None \<Rightarrow> []
           | Some e \<Rightarrow> take (e + 1) (fromBrace b) # candidates (drop (e + 1) (fromBrace b)))"
  by pat_completeness auto
termination
proof (relation "measure length", goal_cases)
  case 1
  show ?case by simp
next
  case (2 b e)
  have "length (fromBrace b) \<le> length b"
    by (simp add: fromBrace_def length_dropWhile_le)
  moreover have "fromBrace b \<noteq> []"
    using 2(1) by (auto simp: fromBrace_def dropWhile_eq_Nil_conv)
  ultimately show ?case
    by (cases "fromBrace b") auto
qed

text \<open>
  The text one pass has not consumed: the buffer itself when it has no opening brace,
  the buffer from its first opening brace on when the object starting there is
  incomplete, and otherwise what is not consumed of the text after that object.
\<close>

function unconsumed :: "js_string \<Rightarrow> js_string" where
  "unconsumed b =
     (if LBRACE \<notin> set b then b
      else case findObjectEnd (fromBrace b) 0 0 of
             None \<Rightarrow> fromBrace b
           | Some e \<Rightarrow> unconsumed (drop (e + 1) (fromBrace b)))"
  by pat_completeness auto
termination
proof (relation "measure length", goal_cases)
  case 1
  show ?case by simp
next
  case (2 b e)
  have "length (fromBrace b) \<le> length b"
    by (simp add: fromBrace_def length_dropWhile_le)
  moreover have "fromBrace b \<noteq> []"
    using 2(1) by (auto simp: fromBrace_def dropWhile_eq_Nil_conv)
  ultimately show ?case
    by (cases "fromBrace b") auto
qed

text \<open>The records one pass over a text appends.\<close>

definition emitted :: "(js_string \<Rightarrow> json option) \<Rightarrow> js_string \<Rightarrow> json list" where
  "emitted parse b = filter accepted (List.map_filter parse (candidates b))"

text \<open>The record list of a state, \<open>null\<close> read as empty (\<open>files ?? []\<close>).\<close>

definition files_of :: "App \<Rightarrow> json list" where
  "files_of s = (case reimplementedFiles s of None \<Rightarrow> [] | Some files \<Rightarrow> files)"

definition appendAll :: "json list \<Rightarrow> run \<Rightarrow> run" where
  "appendAll fs r = foldl (\<lambda>r f. commit (appendFile f) r) r fs"

text \<open>The five statuses of a state, in stage order.\<close>

definition statuses :: "App \<Rightarrow> Status list" where
  "statuses s = map step_status (statusSteps s)"

text \<open>The stage list with the given statuses: ids and texts never change.\<close>

definition withStatuses :: "Status list \<Rightarrow> StatusStep list" where
  "withStatuses sts = map (\<lambda>(st, step). step\<lparr>step_status := st\<rparr>) (zip sts initialSteps)"

text \<open>
  The status changes a stage may make in one step: none; \<open>pending\<close> to \<open>in-progress\<close>, for
  stages 1 to 4; \<open>in-progress\<close> to \<open>complete\<close> or \<open>error\<close>; and, for stage 5 only, \<open>pending\<close>
  to \<open>complete\<close>.
\<close>

definition allowed :: "nat \<Rightarrow> Status \<Rightarrow> Status \<Rightarrow> bool" where
  "allowed i a b =
     (a = b
      \<or> (i \<noteq> 5 \<and> a = pending \<and> b = in_progress)
      \<or> (a = in_progress \<and> (b = complete \<or> b = status_error))
      \<or> (i = 5 \<and> a = pending \<and> b = complete))"

definition stage_step :: "App \<Rightarrow> App \<Rightarrow> bool" where
  "stage_step s s' =
     list_all2 (\<lambda>a b. step_id b = step_id a \<and> allowed (step_id a) (step_status a) (step_status b))
       (statusSteps s) (statusSteps s')"

text \<open>At most one stage is in progress.\<close>

definition one_in_progress :: "App \<Rightarrow> bool" where
  "one_in_progress s = (length (filter (\<lambda>st. step_status st = in_progress) (statusSteps s)) \<le> 1)"

definition trace_ok :: "App list \<Rightarrow> bool" where
  "trace_ok ss = (successively stage_step ss \<and> list_all one_in_progress ss)"

text \<open>
  \<open>leads r r'\<close>: the run \<open>r'\<close> continues \<open>r\<close>, and from the current state of \<open>r\<close> on every
  step is allowed and every state has at most one stage in progress. \<open>at sts r r'\<close> adds
  the statuses \<open>r'\<close> has reached.
\<close>

definition leads :: "run \<Rightarrow> run \<Rightarrow> bool" where
  "leads r r' = (\<exists>ss. states r' = states r @ ss \<and> trace_ok (current r # ss))"

definition at :: "Status list \<Rightarrow> run \<Rightarrow> run \<Rightarrow> bool" where
  "at sts r0 r = (leads r0 r \<and> statusSteps (current r) = withStatuses sts)"

text \<open>What \<open>handleError\<close> does to the statuses: the first stage in progress becomes \<open>error\<close>.\<close>

fun markFirst :: "Status list \<Rightarrow> Status list" where
  "markFirst [] = []"
| "markFirst (x # xs) = (if x = in_progress then status_error # xs else x # markFirst xs)"

text \<open>How a run can end.\<close>

definition failed_with :: "js_string \<Rightarrow> Status list \<Rightarrow> App \<Rightarrow> bool" where
  "failed_with m sts s = (appState s = error \<and> errorMessage s = Some m \<and> statuses s = sts)"

definition succeeded :: "App \<Rightarrow> bool" where
  "succeeded s = (appState s = reimplemented \<and> errorMessage s = None
     \<and> statuses s = [complete, complete, complete, complete, complete])"

text \<open>The run when stage 1, stage 2 and stage 3 have completed.\<close>

definition afterStage1 :: "run \<Rightarrow> run" where
  "afterStage1 r0 =
     commit (updateStatus 1 complete)
       (commit (updateStatus 1 in_progress)
         (commit (\<lambda>s. s\<lparr>appState := loading\<rparr>) (commit resetState r0)))"

definition afterStage2 :: "RepoFile list \<Rightarrow> run \<Rightarrow> run" where
  "afterStage2 relevantFiles r0 =
     commit (\<lambda>s. s\<lparr>fetchedFiles := Some relevantFiles\<rparr>)
       (commit (updateStatus 2 complete) (commit (updateStatus 2 in_progress) r0))"

definition afterStage3 :: "Stream \<Rightarrow> run \<Rightarrow> run" where
  "afterStage3 analysisStream r0 =
     commit (\<lambda>s. s\<lparr>appState := analyzed\<rparr>)
       (commit (updateStatus 3 complete)
         (foldl (\<lambda>r chunk. commit (appendAnalysis chunk) r)
            (commit (\<lambda>s. s\<lparr>analysisResult := Some []\<rparr>) (commit (updateStatus 3 in_progress) r0))
            (chunks analysisStream)))"

section \<open>Lemmas about the parsing loop\<close>

lemma indexOf_None_iff: "indexOf b c = None \<longleftrightarrow> c \<notin> set b"
  by (induction b) auto

lemma indexOf_Some_drop: "indexOf b c = Some k \<Longrightarrow> drop k b = dropWhile (\<lambda>x. x \<noteq> c) b"
  by (induction b arbitrary: k) (auto split: if_splits)

lemma indexOf_Some_mem: "indexOf b c = Some k \<Longrightarrow> c \<in> set b"
  by (induction b arbitrary: k) (auto split: if_splits)

lemma set_drop_json: "set (drop_json s) \<subseteq> set s"
  by (auto simp: drop_json_def dest: in_set_dropD)

lemma set_replace_fences: "set (replace_fences b) \<subseteq> set b"
proof (induction b rule: replace_fences.induct)
  case 1
  show ?case by simp
next
  case (2 c cs)
  show ?case
  proof (cases "take 3 (c # cs) = [BACKTICK, BACKTICK, BACKTICK]")
    case True
    have "set (drop_json (drop 2 cs)) \<subseteq> set cs"
      using set_drop_json [of "drop 2 cs"] set_drop_subset [of 2 cs] by blast
    with True 2(1) show ?thesis by auto
  next
    case False
    with 2(2) show ?thesis by auto
  qed
qed

lemma set_js_trim: "set (js_trim s) \<subseteq> set s"
proof
  fix x assume "x \<in> set (js_trim s)"
  then have "x \<in> set (dropWhile is_js_space (rev (dropWhile is_js_space s)))"
    by (simp add: js_trim_def)
  then have "x \<in> set (rev (dropWhile is_js_space s))"
    by (rule set_dropWhileD)
  then have "x \<in> set (dropWhile is_js_space s)"
    by simp
  then show "x \<in> set s"
    by (rule set_dropWhileD)
qed

lemma set_cleanup: "set (cleanup b) \<subseteq> set b"
  using set_js_trim [of "replace_fences b"] set_replace_fences [of b]
  by (auto simp: cleanup_def Let_def)

declare processBuffer.simps [simp del]

lemma processBuffer_noise:
  "LBRACE \<notin> set b \<Longrightarrow> processBuffer parse (r, b) = (r, cleanup b)"
proof -
  assume "LBRACE \<notin> set b"
  then have "indexOf b LBRACE = None"
    by (simp add: indexOf_None_iff)
  then show ?thesis
    by (simp add: processBuffer.simps [of parse r b] cleanup_def Let_def)
qed

lemma processBuffer_incomplete:
  "LBRACE \<in> set b \<Longrightarrow> findObjectEnd (fromBrace b) 0 0 = None \<Longrightarrow>
   processBuffer parse (r, b) = (r, fromBrace b)"
proof -
  assume a: "LBRACE \<in> set b" and f: "findObjectEnd (fromBrace b) 0 0 = None"
  from a obtain k where k: "indexOf b LBRACE = Some k"
    using indexOf_None_iff [of b LBRACE] by auto
  then have "drop k b = fromBrace b"
    by (simp add: indexOf_Some_drop fromBrace_def)
  with k f show ?thesis by (simp add: processBuffer.simps [of parse r b] Let_def)
qed

lemma processBuffer_found:
  "LBRACE \<in> set b \<Longrightarrow> findObjectEnd (fromBrace b) 0 0 = Some e \<Longrightarrow>
   processBuffer parse (r, b) =
     processBuffer parse (tryParse parse (take (e + 1) (fromBrace b)) r, drop (e + 1) (fromBrace b))"
proof -
  assume a: "LBRACE \<in> set b" and f: "findObjectEnd (fromBrace b) 0 0 = Some e"
  from a obtain k where k: "indexOf b LBRACE = Some k"
    using indexOf_None_iff [of b LBRACE] by auto
  then have "drop k b = fromBrace b"
    by (simp add: indexOf_Some_drop fromBrace_def)
  with k f show ?thesis by (simp add: processBuffer.simps [of parse r b] Let_def)
qed

lemma findObjectEnd_bounds:
  "findObjectEnd xs i n = Some e \<Longrightarrow> i \<le> e \<and> e < i + length xs"
  by (induction xs arbitrary: i n) (fastforce split: if_splits)+

lemma findObjectEnd_append:
  "findObjectEnd xs i n = Some e \<Longrightarrow> findObjectEnd (xs @ s) i n = Some e"
  by (induction xs arbitrary: i n) (auto split: if_splits)

lemma fromBrace_idem: "fromBrace (fromBrace b) = fromBrace b"
  by (simp add: fromBrace_def dropWhile_idem)

lemma fromBrace_mem: "LBRACE \<in> set (fromBrace b) \<longleftrightarrow> LBRACE \<in> set b"
  by (induction b) (auto simp: fromBrace_def)

lemma fromBrace_Nil_iff: "fromBrace b = [] \<longleftrightarrow> LBRACE \<notin> set b"
  by (induction b) (auto simp: fromBrace_def)

lemma fromBrace_append:
  "fromBrace (b @ s) = (if LBRACE \<in> set b then fromBrace b @ s else fromBrace s)"
  by (induction b) (auto simp: fromBrace_def)

lemma processBuffer_fromBrace:
  assumes "LBRACE \<in> set b"
  shows "processBuffer parse (r, b) = processBuffer parse (r, fromBrace b)"
proof (cases "findObjectEnd (fromBrace b) 0 0")
  case None
  then show ?thesis
    using assms processBuffer_incomplete [of b parse r]
      processBuffer_incomplete [of "fromBrace b" parse r]
    by (simp add: fromBrace_idem fromBrace_mem)
next
  case (Some e)
  then show ?thesis
    using assms processBuffer_found [of b e parse r]
      processBuffer_found [of "fromBrace b" e parse r]
    by (simp add: fromBrace_idem fromBrace_mem)
qed

lemma alike_refl: "alike b b"
  by (simp add: alike_def)

lemma alike_append: "alike b b' \<Longrightarrow> alike (b @ s) (b' @ s)"
proof -
  assume a: "alike b b'"
  then have "LBRACE \<in> set b \<longleftrightarrow> LBRACE \<in> set b'"
    using fromBrace_Nil_iff [of b] fromBrace_Nil_iff [of b'] by (simp add: alike_def)
  with a show ?thesis
    by (simp add: alike_def fromBrace_append)
qed

lemma processBuffer_residual_noise:
  "LBRACE \<notin> set b \<Longrightarrow> LBRACE \<notin> set (snd (processBuffer parse (r, b)))"
  using set_cleanup [of b] by (auto simp: processBuffer_noise)

lemma processBuffer_alike:
  assumes "alike b b'"
  shows "fst (processBuffer parse (r, b)) = fst (processBuffer parse (r, b'))
       \<and> alike (snd (processBuffer parse (r, b))) (snd (processBuffer parse (r, b')))"
proof (cases "LBRACE \<in> set b")
  case True
  then have "LBRACE \<in> set b'"
    using assms fromBrace_Nil_iff [of b] fromBrace_Nil_iff [of b'] by (simp add: alike_def)
  then have "processBuffer parse (r, b) = processBuffer parse (r, b')"
    using True assms processBuffer_fromBrace [of b parse r] processBuffer_fromBrace [of b' parse r]
    by (simp add: alike_def)
  then show ?thesis by (simp add: alike_refl)
next
  case False
  then have n: "LBRACE \<notin> set b'"
    using assms fromBrace_Nil_iff [of b] fromBrace_Nil_iff [of b'] by (simp add: alike_def)
  have "fromBrace (cleanup b) = []" "fromBrace (cleanup b') = []"
    using False n set_cleanup [of b] set_cleanup [of b'] by (auto simp: fromBrace_Nil_iff)
  then show ?thesis
    using False n by (simp add: processBuffer_noise alike_def)
qed

lemma processBuffer_absorb:
  "fst (processBuffer parse (fst (processBuffer parse (r, b)), snd (processBuffer parse (r, b)) @ s))
     = fst (processBuffer parse (r, b @ s))
   \<and> alike (snd (processBuffer parse (fst (processBuffer parse (r, b)), snd (processBuffer parse (r, b)) @ s)))
        (snd (processBuffer parse (r, b @ s)))"
proof (induction "length b" arbitrary: r b rule: less_induct)
  case less
  show ?case
  proof (cases "LBRACE \<in> set b")
    case False
    have "alike (cleanup b @ s) (b @ s)"
      using False set_cleanup [of b] by (auto simp: alike_def fromBrace_append)
    then show ?thesis
      using False processBuffer_alike [of "cleanup b @ s" "b @ s" parse r]
      by (simp add: processBuffer_noise)
  next
    case True
    show ?thesis
    proof (cases "findObjectEnd (fromBrace b) 0 0")
      case None
      have "alike (fromBrace b @ s) (b @ s)"
        using True by (simp add: alike_def fromBrace_append fromBrace_idem fromBrace_mem)
      then show ?thesis
        using True None processBuffer_alike [of "fromBrace b @ s" "b @ s" parse r]
        by (simp add: processBuffer_incomplete)
    next
      case (Some e)
      let ?b1 = "fromBrace b"
      let ?r' = "tryParse parse (take (e + 1) ?b1) r"
      let ?b2 = "drop (e + 1) ?b1"
      have e: "e < length ?b1"
        using findObjectEnd_bounds [OF Some] by simp
      have len: "length ?b2 < length b"
      proof -
        have "length ?b1 \<le> length b"
          by (simp add: fromBrace_def length_dropWhile_le)
        with e show ?thesis by simp
      qed
      have 1: "processBuffer parse (r, b) = processBuffer parse (?r', ?b2)"
        using True Some by (rule processBuffer_found)
      have "findObjectEnd (fromBrace (b @ s)) 0 0 = Some e"
        using True Some by (simp add: fromBrace_append findObjectEnd_append)
      then have "processBuffer parse (r, b @ s)
          = processBuffer parse (tryParse parse (take (e + 1) (fromBrace (b @ s))) r,
                                 drop (e + 1) (fromBrace (b @ s)))"
        using True processBuffer_found [of "b @ s" e parse r] by simp
      then have 2: "processBuffer parse (r, b @ s) = processBuffer parse (?r', ?b2 @ s)"
        using True e by (simp add: fromBrace_append)
      show ?thesis
        using less [OF len, of ?r'] by (simp add: 1 2)
    qed
  qed
qed

lemma feedChunks_alike:
  "alike b b' \<Longrightarrow>
   fst (feedChunks parse (r, b) cs) = fst (feedChunks parse (r, b') cs)
   \<and> alike (snd (feedChunks parse (r, b) cs)) (snd (feedChunks parse (r, b') cs))"
proof (induction cs arbitrary: r b b')
  case Nil
  then show ?case by (simp add: feedChunks_def)
next
  case (Cons c cs)
  from Cons.prems have a: "alike (b @ c) (b' @ c)"
    by (rule alike_append)
  obtain r1 b1 where p1: "processBuffer parse (r, b @ c) = (r1, b1)"
    by (cases "processBuffer parse (r, b @ c)")
  obtain r2 b2 where p2: "processBuffer parse (r, b' @ c) = (r2, b2)"
    by (cases "processBuffer parse (r, b' @ c)")
  from processBuffer_alike [OF a, of parse r] p1 p2 have "r1 = r2" "alike b1 b2"
    by simp_all
  with Cons.IH [of b1 b2 r1] show ?case
    by (simp add: feedChunks_def feedChunk_def p1 p2)
qed

lemma feedChunks_concat_general:
  "fst (feedChunks parse (processBuffer parse (r, b)) cs)
     = fst (processBuffer parse (r, b @ concat cs))
   \<and> alike (snd (feedChunks parse (processBuffer parse (r, b)) cs))
        (snd (processBuffer parse (r, b @ concat cs)))"
proof (induction cs arbitrary: r b)
  case Nil
  show ?case by (simp add: feedChunks_def alike_refl)
next
  case (Cons c cs)
  obtain r1 b1 where p1: "processBuffer parse (r, b) = (r1, b1)"
    by (cases "processBuffer parse (r, b)")
  obtain r2 b2 where p2: "processBuffer parse (r1, b1 @ c) = (r2, b2)"
    by (cases "processBuffer parse (r1, b1 @ c)")
  obtain r3 b3 where p3: "processBuffer parse (r, b @ c) = (r3, b3)"
    by (cases "processBuffer parse (r, b @ c)")
  from processBuffer_absorb [of parse r b c] p1 p2 p3 have eq: "r2 = r3" "alike b2 b3"
    by simp_all
  have step: "feedChunks parse (processBuffer parse (r, b)) (c # cs)
      = feedChunks parse (r2, b2) cs"
    by (simp add: feedChunks_def feedChunk_def p1 p2)
  from Cons.IH [of r "b @ c"] p3
  have ih: "fst (feedChunks parse (r3, b3) cs) = fst (processBuffer parse (r, b @ c @ concat cs))"
    "alike (snd (feedChunks parse (r3, b3) cs)) (snd (processBuffer parse (r, b @ c @ concat cs)))"
    by simp_all
  from feedChunks_alike [OF eq(2), of parse r2 cs] eq(1)
  have al: "fst (feedChunks parse (r2, b2) cs) = fst (feedChunks parse (r3, b3) cs)"
    "alike (snd (feedChunks parse (r2, b2) cs)) (snd (feedChunks parse (r3, b3) cs))"
    by simp_all
  from step ih al show ?case
    by (simp add: alike_def)
qed

lemma processBuffer_empty: "processBuffer parse (r, []) = (r, [])"
  by (simp add: processBuffer_noise cleanup_def includes_char_def js_trim_def replace_fences.simps)

lemma feedChunks_concat:
  "fst (feedChunks parse (r, []) cs) = fst (feedChunks parse (r, []) [concat cs])"
proof -
  have "fst (feedChunks parse (processBuffer parse (r, [])) cs)
      = fst (processBuffer parse (r, [] @ concat cs))"
    using feedChunks_concat_general [of parse r "[]" cs] by blast
  then show ?thesis
    by (simp add: processBuffer_empty feedChunks_def feedChunk_def)
qed

declare candidates.simps [simp del]

lemma tryParse_eq:
  "tryParse parse objectStr r =
     (case parse objectStr of
        None \<Rightarrow> r
      | Some file \<Rightarrow> if accepted file then commit (appendFile file) r else r)"
  by (simp add: tryParse_def accepted_def split: option.splits outcome.splits)

lemma tryParse_appendAll:
  "tryParse parse objectStr r = appendAll (filter accepted (List.map_filter parse [objectStr])) r"
  by (simp add: tryParse_eq appendAll_def List.map_filter_def split: option.splits)

lemma appendAll_append: "appendAll (xs @ ys) r = appendAll ys (appendAll xs r)"
  by (simp add: appendAll_def)

lemma processBuffer_candidates:
  "fst (processBuffer parse (r, b)) = appendAll (emitted parse b) r"
proof (induction b arbitrary: r rule: candidates.induct)
  case (1 b)
  show ?case
  proof (cases "LBRACE \<in> set b")
    case False
    then show ?thesis
      by (simp add: processBuffer_noise candidates.simps [of b] emitted_def appendAll_def
          List.map_filter_def)
  next
    case True
    show ?thesis
    proof (cases "findObjectEnd (fromBrace b) 0 0")
      case None
      with True show ?thesis
        by (simp add: processBuffer_incomplete candidates.simps [of b] emitted_def appendAll_def
            List.map_filter_def)
    next
      case (Some e)
      have c: "candidates b = take (e + 1) (fromBrace b) # candidates (drop (e + 1) (fromBrace b))"
        using True Some by (simp add: candidates.simps [of b])
      have "emitted parse b
          = filter accepted (List.map_filter parse [take (e + 1) (fromBrace b)])
            @ emitted parse (drop (e + 1) (fromBrace b))"
        by (simp add: c emitted_def List.map_filter_def)
      then show ?thesis
        using 1 [OF _ Some, of "tryParse parse (take (e + 1) (fromBrace b)) r"] True Some
        by (simp add: processBuffer_found appendAll_append tryParse_appendAll)
    qed
  qed
qed

lemma feedChunks_emitted:
  "fst (feedChunks parse (r, []) cs) = appendAll (emitted parse (concat cs)) r"
  using feedChunks_concat [of parse r cs]
  by (simp add: feedChunks_def feedChunk_def processBuffer_candidates)

lemma files_of_appendFile: "files_of (appendFile f s) = files_of s @ [f]"
  by (simp add: files_of_def appendFile_def)

lemma current_commit: "current (commit f r) = f (current r)"
  by (simp add: current_def commit_def)

lemma files_of_appendAll: "files_of (current (appendAll fs r)) = files_of (current r) @ fs"
  by (induction fs arbitrary: r) (simp_all add: appendAll_def current_commit files_of_appendFile)

lemma fromBrace_self: "take 1 b = [LBRACE] \<Longrightarrow> fromBrace b = b"
  by (cases b) (auto simp: fromBrace_def)

lemma candidates_Nil: "candidates [] = []"
  by (simp add: candidates.simps [of "[]"])

lemma candidates_single:
  assumes "take 1 b = [LBRACE]" and "findObjectEnd b 0 0 = Some (length b - 1)"
  shows "candidates b = [b]"
proof -
  have b: "b \<noteq> []" "LBRACE \<in> set b"
    using assms(1) by (cases b; auto)+
  then have "Suc (length b - 1) = length b"
    by (cases b) auto
  then show ?thesis
    using assms b by (simp add: candidates.simps [of b] fromBrace_self candidates_Nil)
qed

lemma fromBrace_take1: "LBRACE \<in> set b \<Longrightarrow> take 1 (fromBrace b) = [LBRACE]"
  by (induction b) (auto simp: fromBrace_def)

lemma fromBrace_split: "b = takeWhile (\<lambda>c. c \<noteq> LBRACE) b @ fromBrace b"
  by (simp add: fromBrace_def)

lemma processBuffer_residual:
  "\<exists>pre s. b = pre @ s \<and>
     (if LBRACE \<in> set s
      then take 1 s = [LBRACE] \<and> findObjectEnd s 0 0 = None \<and> snd (processBuffer parse (r, b)) = s
      else snd (processBuffer parse (r, b)) = cleanup s)"
proof (induction b arbitrary: r rule: candidates.induct)
  case (1 b)
  show ?case
  proof (cases "LBRACE \<in> set b")
    case False
    then have "b = [] @ b \<and> (if LBRACE \<in> set b
      then take 1 b = [LBRACE] \<and> findObjectEnd b 0 0 = None \<and> snd (processBuffer parse (r, b)) = b
      else snd (processBuffer parse (r, b)) = cleanup b)"
      by (simp add: processBuffer_noise)
    then show ?thesis by blast
  next
    case True
    show ?thesis
    proof (cases "findObjectEnd (fromBrace b) 0 0")
      case None
      let ?s = "fromBrace b"
      have "b = takeWhile (\<lambda>c. c \<noteq> LBRACE) b @ ?s \<and> (if LBRACE \<in> set ?s
        then take 1 ?s = [LBRACE] \<and> findObjectEnd ?s 0 0 = None \<and> snd (processBuffer parse (r, b)) = ?s
        else snd (processBuffer parse (r, b)) = cleanup ?s)"
        using True None fromBrace_split [of b] fromBrace_take1 [of b]
        by (simp add: processBuffer_incomplete fromBrace_mem)
      then show ?thesis by blast
    next
      case (Some e)
      let ?b2 = "drop (e + 1) (fromBrace b)"
      let ?r' = "tryParse parse (take (e + 1) (fromBrace b)) r"
      from 1 [OF _ Some, of ?r'] True
      obtain pre s where ps: "?b2 = pre @ s"
        "if LBRACE \<in> set s
         then take 1 s = [LBRACE] \<and> findObjectEnd s 0 0 = None \<and> snd (processBuffer parse (?r', ?b2)) = s
         else snd (processBuffer parse (?r', ?b2)) = cleanup s"
        by auto
      define tw where "tw = takeWhile (\<lambda>c. c \<noteq> LBRACE) b"
      define fb where "fb = fromBrace b"
      have "b = tw @ fb"
        unfolding tw_def fb_def by (rule fromBrace_split)
      moreover have "fb = take (e + 1) fb @ pre @ s"
        using ps(1) unfolding fb_def by (metis append_take_drop_id)
      ultimately have "b = (tw @ take (e + 1) fb @ pre) @ s"
        by (metis append_assoc)
      moreover have "processBuffer parse (r, b) = processBuffer parse (?r', ?b2)"
        using True Some by (rule processBuffer_found)
      ultimately show ?thesis
        using ps(2) by metis
    qed
  qed
qed

lemma in_set_dropWhile_keep: "x \<in> set xs \<Longrightarrow> \<not> P x \<Longrightarrow> x \<in> set (dropWhile P xs)"
  by (induction xs) auto

lemma js_trim_keeps: "x \<in> set s \<Longrightarrow> \<not> is_js_space x \<Longrightarrow> x \<in> set (js_trim s)"
  by (simp add: js_trim_def in_set_dropWhile_keep)

lemma RBRACE_not_space: "\<not> is_js_space RBRACE"
  by (simp add: is_js_space_def RBRACE_def)

lemma dropWhile_rev_prefix:
  "z = [] \<or> \<not> P (hd z) \<Longrightarrow> dropWhile P (rev (dropWhile P (rev z))) = rev (dropWhile P (rev z))"
proof -
  assume z: "z = [] \<or> \<not> P (hd z)"
  let ?t = "rev (dropWhile P (rev z))"
  have "rev (takeWhile P (rev z) @ dropWhile P (rev z)) = z"
    by (simp only: takeWhile_dropWhile_id rev_rev_ident)
  then have split: "z = ?t @ rev (takeWhile P (rev z))"
    by (simp only: rev_append)
  show ?thesis
  proof (cases ?t)
    case Nil
    then show ?thesis by (simp only: dropWhile.simps)
  next
    case (Cons a t')
    then have "hd z = a"
      using split by (metis hd_append2 list.sel(1) list.simps(3))
    moreover have "z \<noteq> []"
      using split Cons by auto
    ultimately have "\<not> P a"
      using z by auto
    then show ?thesis
      using Cons by simp
  qed
qed

lemma js_trim_idem: "js_trim (js_trim u) = js_trim u"
proof -
  let ?z = "dropWhile is_js_space u"
  have z: "?z = [] \<or> \<not> is_js_space (hd ?z)"
    using hd_dropWhile [of is_js_space u] by auto
  have "dropWhile is_js_space (js_trim u) = js_trim u"
    unfolding js_trim_def using z by (rule dropWhile_rev_prefix [of "dropWhile is_js_space u" is_js_space])
  then have "js_trim (js_trim u) = rev (dropWhile is_js_space (rev (js_trim u)))"
    by (simp add: js_trim_def)
  also have "\<dots> = js_trim u"
    by (simp add: js_trim_def dropWhile_idem)
  finally show ?thesis .
qed

lemma cleanup_eq:
  "cleanup s = (if RBRACE \<in> set s then s else js_trim (replace_fences s))"
proof (cases "RBRACE \<in> set s")
  case True
  then have "js_trim s \<noteq> []"
    using js_trim_keeps [of RBRACE s] RBRACE_not_space by auto
  with True show ?thesis
    by (simp add: cleanup_def includes_char_def)
next
  case False
  have "js_trim (js_trim (replace_fences s)) = [] \<Longrightarrow> js_trim (replace_fences s) = []"
    by (simp add: js_trim_idem)
  with False show ?thesis
    by (auto simp: cleanup_def includes_char_def Let_def)
qed

lemma accepted_iff:
  "accepted file \<longleftrightarrow>
     (\<exists>kvs p c. file = JObj kvs
        \<and> map_of (rev kvs) (js ''path'') = Some p \<and> truthy p
        \<and> map_of (rev kvs) (js ''content'') = Some c \<and> truthy c)"
  by (cases "file") (auto simp: accepted_def truthy_opt_def split: option.splits)

lemma feedChunks_appendAll: "\<exists>fs. fst (feedChunks parse (r, b) cs) = appendAll fs r"
proof (induction cs arbitrary: r b)
  case Nil
  have "fst (feedChunks parse (r, b) []) = appendAll [] r"
    by (simp add: feedChunks_def appendAll_def)
  then show ?case by blast
next
  case (Cons c cs)
  obtain r1 b1 where p: "processBuffer parse (r, b @ c) = (r1, b1)"
    by (cases "processBuffer parse (r, b @ c)")
  then have r1: "r1 = appendAll (emitted parse (b @ c)) r"
    using processBuffer_candidates [of parse r "b @ c"] by simp
  from Cons [of r1 b1] obtain fs where "fst (feedChunks parse (r1, b1) cs) = appendAll fs r1"
    by blast
  then have "fst (feedChunks parse (r, b) (c # cs)) = appendAll (emitted parse (b @ c) @ fs) r"
    by (simp add: feedChunks_def feedChunk_def p r1 appendAll_append)
  then show ?case by blast
qed

lemma appendFile_frame:
  "appState (appendFile f s) = appState s"
  "errorMessage (appendFile f s) = errorMessage s"
  "statusSteps (appendFile f s) = statusSteps s"
  "analysisResult (appendFile f s) = analysisResult s"
  "fetchedFiles (appendFile f s) = fetchedFiles s"
  by (simp_all add: appendFile_def)

lemma appendAll_frame:
  "appState (current (appendAll fs r)) = appState (current r)
   \<and> errorMessage (current (appendAll fs r)) = errorMessage (current r)
   \<and> statusSteps (current (appendAll fs r)) = statusSteps (current r)
   \<and> analysisResult (current (appendAll fs r)) = analysisResult (current r)
   \<and> fetchedFiles (current (appendAll fs r)) = fetchedFiles (current r)"
  by (induction fs arbitrary: r) (simp_all add: appendAll_def current_commit appendFile_frame)

lemma states_commit: "states (commit f r) = states r @ [f (current r)]"
  by (simp add: states_def commit_def current_def)

lemma states_appendAll:
  "\<exists>ss. states (appendAll fs r) = states r @ ss
        \<and> successively (\<lambda>s s'. \<exists>f. s' = appendFile f s \<and> files_of s' = files_of s @ [f])
             (current r # ss)"
proof (induction fs arbitrary: r)
  case Nil
  have "states (appendAll [] r) = states r @ []
        \<and> successively (\<lambda>s s'. \<exists>f. s' = appendFile f s \<and> files_of s' = files_of s @ [f])
             (current r # [])"
    by (simp add: appendAll_def)
  then show ?case by blast
next
  case (Cons f fs)
  let ?r' = "commit (appendFile f) r"
  from Cons [of ?r'] obtain ss where ss: "states (appendAll fs ?r') = states ?r' @ ss"
    "successively (\<lambda>s s'. \<exists>f. s' = appendFile f s \<and> files_of s' = files_of s @ [f])
       (current ?r' # ss)"
    by blast
  have "states (appendAll (f # fs) r) = states r @ (current ?r' # ss)"
    using ss(1) by (simp add: appendAll_def states_commit current_commit)
  moreover have "successively (\<lambda>s s'. \<exists>f. s' = appendFile f s \<and> files_of s' = files_of s @ [f])
       (current r # current ?r' # ss)"
    using ss(2) by (auto simp: current_commit files_of_appendFile)
  ultimately show ?case by blast
qed

lemma stage4_done:
  assumes "reimplementCode env relevantFiles (analysisResult (current r0)) = Returns stream"
    and "failure stream = None"
  shows "stage4 env relevantFiles r0 =
     commit (\<lambda>s. s\<lparr>appState := reimplemented\<rparr>)
       (commit (updateStatus 5 complete)
         (commit (updateStatus 4 complete)
           (appendAll (emitted (parseJSON env) (concat (chunks stream)))
             (commit (\<lambda>s. s\<lparr>reimplementedFiles := Some []\<rparr>)
               (commit (updateStatus 4 in_progress) r0)))))"
  using assms
  by (simp add: stage4_def Let_def current_commit updateStatus_def feedChunks_emitted)

lemma updateStatus_frame:
  "appState (updateStatus i st s) = appState s"
  "errorMessage (updateStatus i st s) = errorMessage s"
  "reimplementedFiles (updateStatus i st s) = reimplementedFiles s"
  "analysisResult (updateStatus i st s) = analysisResult s"
  "fetchedFiles (updateStatus i st s) = fetchedFiles s"
  by (simp_all add: updateStatus_def)

lemma files_of_updateStatus: "files_of (updateStatus i st s) = files_of s"
  by (simp add: files_of_def updateStatus_def)

section \<open>Lemmas about the GitHub service and the error handler\<close>

declare performFetch.simps [simp del]

lemma performFetch_immediate:
  "net k = Returns resp \<Longrightarrow> status resp < 500 \<Longrightarrow>
   performFetch net k retries backoff = \<lparr>result = Returns resp, waits = [], calls = k + 1\<rparr>"
  by (simp add: performFetch.simps [of net k retries backoff])

lemma performFetch_retry_iff:
  "waits (performFetch net k retries backoff) \<noteq> [] \<longleftrightarrow>
     0 < retries \<and> ((\<exists>resp. net k = Returns resp \<and> 500 \<le> status resp)
                    \<or> net k = Throws (TypeError (js ''Failed to fetch'')))"
  by (cases "net k") (auto simp: performFetch.simps [of net k retries backoff] Let_def)

lemma retry_step:
  fixes backoff :: nat
  assumes "0 < retries" and "length ws \<le> retries - 1"
    and "ws = map (\<lambda>i. backoff * 2 * 2 ^ i) [0..<length ws]"
    and "c = k + 1 + length ws + 1"
  shows "length (backoff # ws) \<le> retries
       \<and> backoff # ws = map (\<lambda>i. backoff * 2 ^ i) [0..<length (backoff # ws)]
       \<and> c = k + length (backoff # ws) + 1"
proof -
  have "map (\<lambda>i. backoff * 2 ^ i) [0..<Suc (length ws)]
      = backoff # map (\<lambda>i. backoff * 2 * 2 ^ i) [0..<length ws]"
    by (simp only: map_upt_Suc) (simp add: mult.assoc)
  then have "backoff # ws = map (\<lambda>i. backoff * 2 ^ i) [0..<length (backoff # ws)]"
    using assms(3) by simp
  moreover have "length (backoff # ws) \<le> retries"
    using assms(1,2) by simp
  moreover have "c = k + length (backoff # ws) + 1"
    using assms(4) by simp
  ultimately show ?thesis by blast
qed

lemma performFetch_waits:
  "length (waits (performFetch net k retries backoff)) \<le> retries
   \<and> waits (performFetch net k retries backoff)
       = map (\<lambda>i. backoff * 2 ^ i) [0..<length (waits (performFetch net k retries backoff))]
   \<and> calls (performFetch net k retries backoff)
       = k + length (waits (performFetch net k retries backoff)) + 1"
proof (induction net k retries backoff rule: performFetch.induct)
  case (1 net k retries backoff)
  let ?l = "performFetch net (k + 1) (retries - 1) (backoff * 2)"
  show ?case
  proof (cases "net k")
    case (Returns resp)
    show ?thesis
    proof (cases "500 \<le> status resp \<and> 0 < retries")
      case True
      then have eq: "performFetch net k retries backoff = ?l\<lparr>waits := backoff # waits ?l\<rparr>"
        using Returns by (simp add: performFetch.simps [of net k retries backoff] Let_def)
      from 1(2) [OF Returns True] have ih:
        "length (waits ?l) \<le> retries - 1"
        "waits ?l = map (\<lambda>i. backoff * 2 * 2 ^ i) [0..<length (waits ?l)]"
        "calls ?l = k + 1 + length (waits ?l) + 1"
        by blast+
      from True have "0 < retries" by simp
      moreover have "waits (performFetch net k retries backoff) = backoff # waits ?l"
        "calls (performFetch net k retries backoff) = calls ?l"
        by (simp_all add: eq)
      ultimately show ?thesis
        using retry_step [OF _ ih] by (simp only:)
    next
      case False
      then show ?thesis
        using Returns by (auto simp: performFetch.simps [of net k retries backoff])
    qed
  next
    case (Throws e)
    show ?thesis
    proof (cases "e = TypeError (js ''Failed to fetch'') \<and> 0 < retries")
      case True
      then have eq: "performFetch net k retries backoff = ?l\<lparr>waits := backoff # waits ?l\<rparr>"
        using Throws by (simp add: performFetch.simps [of net k retries backoff] Let_def)
      from 1(1) [OF Throws True] have ih:
        "length (waits ?l) \<le> retries - 1"
        "waits ?l = map (\<lambda>i. backoff * 2 * 2 ^ i) [0..<length (waits ?l)]"
        "calls ?l = k + 1 + length (waits ?l) + 1"
        by blast+
      from True have "0 < retries" by simp
      moreover have "waits (performFetch net k retries backoff) = backoff # waits ?l"
        "calls (performFetch net k retries backoff) = calls ?l"
        by (simp_all add: eq)
      ultimately show ?thesis
        using retry_step [OF _ ih] by (simp only:)
    next
      case False
      then show ?thesis
        using Throws by (auto simp: performFetch.simps [of net k retries backoff])
    qed
  qed
qed

lemma handleError_fields:
  "appState (handleError m s) = error"
  "errorMessage (handleError m s) = Some m"
  "analysisResult (handleError m s) = analysisResult s"
  "reimplementedFiles (handleError m s) = reimplementedFiles s"
  "fetchedFiles (handleError m s) = fetchedFiles s"
  "expandedFile (handleError m s) = expandedFile s"
  "repoUrl (handleError m s) = repoUrl s"
  "githubToken (handleError m s) = githubToken s"
  by (simp_all add: handleError_def Let_def updateStatus_def split: option.splits)

lemma getDefaultBranch_not_ok:
  assumes "fetch' (GITHUB_API_BASE @ js ''/'' @ owner @ js ''/'' @ repo) (getHeaders token) 0 = Returns resp"
    and "status resp < 500" and "\<not> ok resp"
  shows "getDefaultBranch fetch' owner repo token =
     (if status resp = 403 then
        Throws (Error (js ''GitHub API rate limit exceeded. Please provide a Personal Access Token to continue.''))
      else if status resp = 404 then
        Throws (Error (js ''Repository not found. It may be private or spelled incorrectly.''))
      else if status resp = 401 then
        Throws (Error (js ''The provided GitHub token is invalid or expired.''))
      else
        Throws (Error (js ''Failed to fetch repository details ('' @ show_nat (status resp)
                       @ js '' '' @ statusText resp @ js '').'')))"
  using assms
    performFetch_immediate [of "fetch' (GITHUB_API_BASE @ js ''/'' @ owner @ js ''/'' @ repo) (getHeaders token)"
      0 resp 3 300]
  by (simp add: getDefaultBranch_def Let_def)

declare unconsumed.simps [simp del]

lemma unconsumed_noise: "LBRACE \<notin> set b \<Longrightarrow> unconsumed b = b"
  by (simp add: unconsumed.simps [of b])

lemma unconsumed_incomplete:
  "LBRACE \<in> set b \<Longrightarrow> findObjectEnd (fromBrace b) 0 0 = None \<Longrightarrow> unconsumed b = fromBrace b"
  by (simp add: unconsumed.simps [of b])

lemma unconsumed_found:
  "LBRACE \<in> set b \<Longrightarrow> findObjectEnd (fromBrace b) 0 0 = Some e \<Longrightarrow>
   unconsumed b = unconsumed (drop (e + 1) (fromBrace b))"
  by (simp add: unconsumed.simps [of b])

lemma processBuffer_unconsumed:
  "snd (processBuffer parse (r, b))
     = (if LBRACE \<in> set (unconsumed b) then unconsumed b else cleanup (unconsumed b))"
proof (induction b arbitrary: r rule: unconsumed.induct)
  case (1 b)
  show ?case
  proof (cases "LBRACE \<in> set b")
    case False
    then show ?thesis
      by (simp add: processBuffer_noise unconsumed_noise)
  next
    case True
    show ?thesis
    proof (cases "findObjectEnd (fromBrace b) 0 0")
      case None
      then show ?thesis
        using True by (simp add: processBuffer_incomplete unconsumed_incomplete fromBrace_mem)
    next
      case (Some e)
      show ?thesis
        using 1 [OF _ Some, of "tryParse parse (take (e + 1) (fromBrace b)) r"] True Some
        by (simp add: processBuffer_found unconsumed_found)
    qed
  qed
qed

lemma unconsumed_shape:
  "LBRACE \<in> set (unconsumed b) \<Longrightarrow>
   take 1 (unconsumed b) = [LBRACE] \<and> findObjectEnd (unconsumed b) 0 0 = None"
proof (induction b rule: unconsumed.induct)
  case (1 b)
  show ?case
  proof (cases "LBRACE \<in> set b")
    case False
    then show ?thesis
      using 1(2) by (simp add: unconsumed_noise)
  next
    case True
    show ?thesis
    proof (cases "findObjectEnd (fromBrace b) 0 0")
      case None
      then show ?thesis
        using True fromBrace_take1 [of b] by (simp add: unconsumed_incomplete)
    next
      case (Some e)
      then show ?thesis
        using 1(1) [OF _ Some] 1(2) True by (simp add: unconsumed_found)
    qed
  qed
qed

lemma unconsumed_suffix: "\<exists>pre. b = pre @ unconsumed b"
proof (induction b rule: unconsumed.induct)
  case (1 b)
  show ?case
  proof (cases "LBRACE \<in> set b")
    case False
    then have "b = [] @ unconsumed b"
      by (simp add: unconsumed_noise)
    then show ?thesis by blast
  next
    case True
    define tw where "tw = takeWhile (\<lambda>c. c \<noteq> LBRACE) b"
    define fb where "fb = fromBrace b"
    have b: "b = tw @ fb"
      unfolding tw_def fb_def by (rule fromBrace_split)
    show ?thesis
    proof (cases "findObjectEnd (fromBrace b) 0 0")
      case None
      then have "unconsumed b = fb"
        using True by (simp add: unconsumed_incomplete fb_def)
      with b show ?thesis by metis
    next
      case (Some e)
      from 1 [OF _ Some] True obtain pre where
        pre: "drop (e + 1) fb = pre @ unconsumed (drop (e + 1) fb)"
        unfolding fb_def by auto
      have u: "unconsumed b = unconsumed (drop (e + 1) fb)"
        using True Some by (simp add: unconsumed_found fb_def)
      have "fb = take (e + 1) fb @ pre @ unconsumed b"
        using pre u by (metis append_take_drop_id)
      with b have "b = (tw @ take (e + 1) fb @ pre) @ unconsumed b"
        by (metis append_assoc)
      then show ?thesis by blast
    qed
  qed
qed

lemma unconsumed_drop: "drop (length b - length (unconsumed b)) b = unconsumed b"
proof -
  obtain pre where p: "b = pre @ unconsumed b"
    using unconsumed_suffix by blast
  have "drop (length (pre @ unconsumed b) - length (unconsumed b)) (pre @ unconsumed b) = unconsumed b"
    by simp
  with p show ?thesis by metis
qed

section \<open>Lemmas about the run\<close>

lemma withStatuses5:
  "withStatuses [a, b, c, d, e] =
    [\<lparr>step_id = 1, step_text = js ''Download and read all repository files'', step_status = a\<rparr>,
     \<lparr>step_id = 2, step_text = js ''AI selects relevant files for analysis'', step_status = b\<rparr>,
     \<lparr>step_id = 3, step_text = js ''AI analyzes code architecture'', step_status = c\<rparr>,
     \<lparr>step_id = 4, step_text = js ''AI re-implements the project'', step_status = d\<rparr>,
     \<lparr>step_id = 5, step_text = js ''Ready for download'', step_status = e\<rparr>]"
  by (simp add: withStatuses_def initialSteps_def)

lemma initialSteps_ws: "initialSteps = withStatuses [pending, pending, pending, pending, pending]"
  by (simp add: withStatuses5 initialSteps_def)

lemma statuses_ws:
  "statusSteps s = withStatuses [a, b, c, d, e] \<Longrightarrow> statuses s = [a, b, c, d, e]"
  by (simp add: statuses_def withStatuses5)

lemma updateStatus_ws:
  assumes "statusSteps s = withStatuses [a, b, c, d, e]"
  shows "statusSteps (updateStatus 1 st s) = withStatuses [st, b, c, d, e]"
    and "statusSteps (updateStatus 2 st s) = withStatuses [a, st, c, d, e]"
    and "statusSteps (updateStatus 3 st s) = withStatuses [a, b, st, d, e]"
    and "statusSteps (updateStatus 4 st s) = withStatuses [a, b, c, st, e]"
    and "statusSteps (updateStatus 5 st s) = withStatuses [a, b, c, d, st]"
  using assms by (simp_all add: updateStatus_def withStatuses5)

lemma handleError_ws:
  assumes "statusSteps s = withStatuses [a, b, c, d, e]"
  shows "statusSteps (handleError m s) = withStatuses (markFirst [a, b, c, d, e])"
  using assms by (simp add: handleError_def Let_def updateStatus_def withStatuses5)

lemma stage_step_ws:
  assumes "statusSteps s = withStatuses [a, b, c, d, e]"
    and "statusSteps s' = withStatuses [a', b', c', d', e']"
  shows "stage_step s s' \<longleftrightarrow>
     allowed 1 a a' \<and> allowed 2 b b' \<and> allowed 3 c c' \<and> allowed 4 d d' \<and> allowed 5 e e'"
  using assms by (simp add: stage_step_def withStatuses5)

lemma one_in_progress_ws:
  assumes "statusSteps s = withStatuses [a, b, c, d, e]"
  shows "one_in_progress s \<longleftrightarrow> length (filter (\<lambda>x. x = in_progress) [a, b, c, d, e]) \<le> 1"
  using assms by (simp add: one_in_progress_def withStatuses5)

lemma stage_step_same: "statusSteps s' = statusSteps s \<Longrightarrow> stage_step s s'"
  by (simp add: stage_step_def allowed_def list_all2_same)

lemma one_in_progress_same: "statusSteps s' = statusSteps s \<Longrightarrow> one_in_progress s' = one_in_progress s"
  by (simp add: one_in_progress_def)

lemma last_states: "last (states r) = current r"
  by (simp add: states_def current_def)

lemma states_not_Nil: "states r \<noteq> []"
  by (simp add: states_def)

lemma leads_refl: "one_in_progress (current r) \<Longrightarrow> leads r r"
  by (simp add: leads_def trace_ok_def)

lemma leads_current:
  assumes "leads r r'"
  shows "one_in_progress (current r')"
proof -
  from assms obtain ss where ss: "states r' = states r @ ss" "trace_ok (current r # ss)"
    by (auto simp: leads_def)
  have "current r' = last (current r # ss)"
    using ss(1) last_states [of r'] last_states [of r] states_not_Nil [of r]
    by (cases ss) (simp_all add: last_append)
  moreover have "list_all one_in_progress (current r # ss)"
    using ss(2) by (simp add: trace_ok_def)
  ultimately show ?thesis
    by (metis last_in_set list.simps(3) list_all_iff)
qed

lemma leads_commit:
  assumes "leads r0 r" and "stage_step (current r) (f (current r))"
    and "one_in_progress (f (current r))"
  shows "leads r0 (commit f r)"
proof -
  from assms(1) obtain ss where ss: "states r = states r0 @ ss" "trace_ok (current r0 # ss)"
    by (auto simp: leads_def)
  have l: "last (current r0 # ss) = current r"
    using ss(1) last_states [of r] last_states [of r0] states_not_Nil [of r0]
    by (cases ss) (simp_all add: last_append)
  have "states (commit f r) = states r0 @ (ss @ [f (current r)])"
    by (simp add: states_commit ss(1))
  moreover have "trace_ok (current r0 # (ss @ [f (current r)]))"
  proof -
    have "successively stage_step ((current r0 # ss) @ [f (current r)])"
      using ss(2) assms(2) l by (simp add: trace_ok_def successively_append_iff del: append_Cons)
    moreover have "list_all one_in_progress ((current r0 # ss) @ [f (current r)])"
      using ss(2) assms(3) by (simp add: trace_ok_def del: append_Cons)
    ultimately show ?thesis
      by (simp add: trace_ok_def)
  qed
  ultimately show ?thesis
    unfolding leads_def by blast
qed

lemma at_start:
  "statusSteps (current r0) = withStatuses sts \<Longrightarrow> one_in_progress (current r0) \<Longrightarrow> at sts r0 r0"
  by (simp add: at_def leads_refl)

lemma at_frame:
  assumes "at sts r0 r" and "statusSteps (f (current r)) = statusSteps (current r)"
  shows "at sts r0 (commit f r)"
proof -
  have "one_in_progress (current r)"
    using assms(1) by (auto simp: at_def intro: leads_current)
  then have "one_in_progress (f (current r))"
    using one_in_progress_same [OF assms(2)] by simp
  moreover have "stage_step (current r) (f (current r))"
    using assms(2) by (rule stage_step_same)
  moreover have "leads r0 r"
    using assms(1) by (simp add: at_def)
  ultimately have "leads r0 (commit f r)"
    by (intro leads_commit)
  then show ?thesis
    using assms by (simp add: at_def current_commit)
qed

lemma at_step:
  assumes "at [a, b, c, d, e] r0 r"
    and "statusSteps (f (current r)) = withStatuses [a', b', c', d', e']"
    and "allowed 1 a a' \<and> allowed 2 b b' \<and> allowed 3 c c' \<and> allowed 4 d d' \<and> allowed 5 e e'"
    and "length (filter (\<lambda>x. x = in_progress) [a', b', c', d', e']) \<le> 1"
  shows "at [a', b', c', d', e'] r0 (commit f r)"
proof -
  have s: "statusSteps (current r) = withStatuses [a, b, c, d, e]"
    using assms(1) by (simp add: at_def)
  have "stage_step (current r) (f (current r))"
    using stage_step_ws [OF s assms(2)] assms(3) by simp
  moreover have "one_in_progress (f (current r))"
    using one_in_progress_ws [OF assms(2)] assms(4) by simp
  moreover have "leads r0 r"
    using assms(1) by (simp add: at_def)
  ultimately have "leads r0 (commit f r)"
    by (intro leads_commit)
  then show ?thesis
    using assms(2) by (simp add: at_def current_commit)
qed

lemma at_one:
  "at [a, b, c, d, e] r0 r \<Longrightarrow> length (filter (\<lambda>x. x = in_progress) [a, b, c, d, e]) \<le> 1"
  using leads_current [of r0 r] one_in_progress_ws [of "current r" a b c d e]
  by (simp add: at_def)

lemma markFirst_allowed:
  "allowed i x x" "allowed i in_progress status_error"
  by (simp_all add: allowed_def)

lemma markFirst5: "\<exists>a' b' c' d' e'. markFirst [a, b, c, d, e] = [a', b', c', d', e']"
  by auto

lemma at_handleError:
  assumes "at [a, b, c, d, e] r0 r"
  shows "at (markFirst [a, b, c, d, e]) r0 (commit (handleError m) r)"
proof -
  have s: "statusSteps (current r) = withStatuses [a, b, c, d, e]"
    using assms by (simp add: at_def)
  have one: "length (filter (\<lambda>x. x = in_progress) [a, b, c, d, e]) \<le> 1"
    using assms by (rule at_one)
  obtain a' b' c' d' e' where m: "markFirst [a, b, c, d, e] = [a', b', c', d', e']"
    using markFirst5 by blast
  have al: "allowed 1 a a' \<and> allowed 2 b b' \<and> allowed 3 c c' \<and> allowed 4 d d' \<and> allowed 5 e e'"
    using m by (auto simp: markFirst_allowed split: if_splits)
  have cnt: "length (filter (\<lambda>x. x = in_progress) [a', b', c', d', e']) \<le> 1"
    using m one by (auto split: if_splits)
  have "statusSteps (handleError m (current r)) = withStatuses [a', b', c', d', e']"
    using handleError_ws [OF s, of m] m by simp
  from at_step [of a b c d e r0 r "handleError m" a' b' c' d' e', OF assms this al cnt] m show ?thesis
    by simp
qed

lemma catch_failed:
  assumes "at [a, b, c, d, e] r0 r"
  shows "at (markFirst [a, b, c, d, e]) r0 (catchError x r)
       \<and> failed_with (message_of x) (markFirst [a, b, c, d, e]) (current (catchError x r))"
proof -
  have a: "at (markFirst [a, b, c, d, e]) r0 (catchError x r)"
    unfolding catchError_def using assms by (rule at_handleError)
  obtain a' b' c' d' e' where m: "markFirst [a, b, c, d, e] = [a', b', c', d', e']"
    using markFirst5 by blast
  have "statuses (current (catchError x r)) = markFirst [a, b, c, d, e]"
    using a statuses_ws [of "current (catchError x r)" a' b' c' d' e'] m by (simp add: at_def)
  then show ?thesis
    using a by (simp add: failed_with_def catchError_def current_commit handleError_fields)
qed

lemma at_appendAll: "at sts r0 r \<Longrightarrow> at sts r0 (appendAll fs r)"
proof (induction fs arbitrary: r)
  case Nil
  then show ?case by (simp add: appendAll_def)
next
  case (Cons f fs)
  have "at sts r0 (commit (appendFile f) r)"
    using Cons.prems by (rule at_frame) (simp add: appendFile_frame)
  from Cons.IH [OF this] show ?case
    by (simp add: appendAll_def)
qed

lemma at_analysis:
  "at sts r0 r \<Longrightarrow> at sts r0 (foldl (\<lambda>r chunk. commit (appendAnalysis chunk) r) r cs)"
proof (induction cs arbitrary: r)
  case Nil
  then show ?case by simp
next
  case (Cons c cs)
  have "at sts r0 (commit (appendAnalysis c) r)"
    using Cons.prems by (rule at_frame) (simp add: appendAnalysis_def)
  from Cons.IH [OF this] show ?case
    by simp
qed

lemma analysis_fold:
  "analysisResult (current r) = Some a \<Longrightarrow>
   analysisResult (current (foldl (\<lambda>r chunk. commit (appendAnalysis chunk) r) r cs)) = Some (a @ concat cs)"
  by (induction cs arbitrary: r a) (simp_all add: current_commit appendAnalysis_def)

lemma stage4_throws:
  assumes "reimplementCode env relevantFiles (analysisResult (current r0)) = Throws x"
  shows "stage4 env relevantFiles r0 =
     catchError x (commit (\<lambda>s. s\<lparr>reimplementedFiles := Some []\<rparr>) (commit (updateStatus 4 in_progress) r0))"
  using assms by (simp add: stage4_def Let_def current_commit updateStatus_def)

lemma stage4_fails:
  assumes "reimplementCode env relevantFiles (analysisResult (current r0)) = Returns stream"
    and "failure stream = Some x"
  shows "stage4 env relevantFiles r0 =
     catchError x (appendAll (emitted (parseJSON env) (concat (chunks stream)))
       (commit (\<lambda>s. s\<lparr>reimplementedFiles := Some []\<rparr>) (commit (updateStatus 4 in_progress) r0)))"
  using assms by (simp add: stage4_def Let_def current_commit updateStatus_def feedChunks_emitted)

lemma stage4_begin:
  assumes "at [complete, complete, complete, pending, pending] r00 r0"
  shows "at [complete, complete, complete, in_progress, pending] r00
     (commit (\<lambda>s. s\<lparr>reimplementedFiles := Some []\<rparr>) (commit (updateStatus 4 in_progress) r0))"
proof -
  have s: "statusSteps (current r0) = withStatuses [complete, complete, complete, pending, pending]"
    using assms by (simp add: at_def)
  have "at [complete, complete, complete, in_progress, pending] r00 (commit (updateStatus 4 in_progress) r0)"
    using assms updateStatus_ws(4) [OF s] by (rule at_step [where f = "updateStatus 4 in_progress"]) (simp_all add: allowed_def)
  then show ?thesis
    by (rule at_frame) (simp add: current_commit)
qed

lemma stage4_at_done:
  assumes "at [complete, complete, complete, pending, pending] r00 r0"
    and "reimplementCode env relevantFiles (analysisResult (current r0)) = Returns stream"
    and "failure stream = None"
  shows "at [complete, complete, complete, complete, complete] r00 (stage4 env relevantFiles r0)"
proof -
  let ?r3 = "appendAll (emitted (parseJSON env) (concat (chunks stream)))
       (commit (\<lambda>s. s\<lparr>reimplementedFiles := Some []\<rparr>) (commit (updateStatus 4 in_progress) r0))"
  have 3: "at [complete, complete, complete, in_progress, pending] r00 ?r3"
    using stage4_begin [OF assms(1)] by (rule at_appendAll)
  then have s3: "statusSteps (current ?r3) = withStatuses [complete, complete, complete, in_progress, pending]"
    by (simp add: at_def)
  have 4: "at [complete, complete, complete, complete, pending] r00 (commit (updateStatus 4 complete) ?r3)"
    using 3 updateStatus_ws(4) [OF s3] by (rule at_step [where f = "updateStatus 4 complete"]) (simp_all add: allowed_def)
  then have s4: "statusSteps (current (commit (updateStatus 4 complete) ?r3))
      = withStatuses [complete, complete, complete, complete, pending]"
    by (simp add: at_def)
  have 5: "at [complete, complete, complete, complete, complete] r00
      (commit (updateStatus 5 complete) (commit (updateStatus 4 complete) ?r3))"
    using 4 updateStatus_ws(5) [OF s4] by (rule at_step [where f = "updateStatus 5 complete"]) (simp_all add: allowed_def)
  then have "at [complete, complete, complete, complete, complete] r00
      (commit (\<lambda>s. s\<lparr>appState := reimplemented\<rparr>)
        (commit (updateStatus 5 complete) (commit (updateStatus 4 complete) ?r3)))"
    by (rule at_frame) (simp add: current_commit)
  then show ?thesis
    using assms(2,3) by (simp add: stage4_done)
qed

lemma stage4_at_error:
  assumes "at [complete, complete, complete, pending, pending] r00 r0"
    and "reimplementCode env relevantFiles (analysisResult (current r0)) = Throws x
       \<or> (\<exists>stream. reimplementCode env relevantFiles (analysisResult (current r0)) = Returns stream
             \<and> failure stream = Some x)"
  shows "at [complete, complete, complete, status_error, pending] r00 (stage4 env relevantFiles r0)
       \<and> failed_with (message_of x) [complete, complete, complete, status_error, pending]
           (current (stage4 env relevantFiles r0))"
proof -
  let ?r2 = "commit (\<lambda>s. s\<lparr>reimplementedFiles := Some []\<rparr>) (commit (updateStatus 4 in_progress) r0)"
  from assms(2) show ?thesis
  proof
    assume "reimplementCode env relevantFiles (analysisResult (current r0)) = Throws x"
    then have "stage4 env relevantFiles r0 = catchError x ?r2"
      by (rule stage4_throws)
    then show ?thesis
      using catch_failed [OF stage4_begin [OF assms(1)], of x] by simp
  next
    assume "\<exists>stream. reimplementCode env relevantFiles (analysisResult (current r0)) = Returns stream
             \<and> failure stream = Some x"
    then obtain stream where st: "reimplementCode env relevantFiles (analysisResult (current r0)) = Returns stream"
      "failure stream = Some x"
      by blast
    have "at [complete, complete, complete, in_progress, pending] r00
        (appendAll (emitted (parseJSON env) (concat (chunks stream))) ?r2)"
      using stage4_begin [OF assms(1)] by (rule at_appendAll)
    from catch_failed [OF this, of x] show ?thesis
      using stage4_fails [OF st] by simp
  qed
qed

lemma stage4_at_any:
  assumes "at [complete, complete, complete, pending, pending] r00 r0"
  shows "\<exists>sts. at sts r00 (stage4 env relevantFiles r0)"
proof (cases "reimplementCode env relevantFiles (analysisResult (current r0))")
  case (Throws x)
  then show ?thesis
    using stage4_at_error [OF assms, of env relevantFiles x] by blast
next
  case (Returns stream)
  show ?thesis
  proof (cases "failure stream")
    case None
    then show ?thesis
      using stage4_at_done [OF assms Returns] by blast
  next
    case (Some x)
    then show ?thesis
      using stage4_at_error [OF assms, of env relevantFiles x] Returns by blast
  qed
qed

lemma analysis_frame:
  "errorMessage (current (foldl (\<lambda>r chunk. commit (appendAnalysis chunk) r) r cs)) = errorMessage (current r)
   \<and> appState (current (foldl (\<lambda>r chunk. commit (appendAnalysis chunk) r) r cs)) = appState (current r)
   \<and> reimplementedFiles (current (foldl (\<lambda>r chunk. commit (appendAnalysis chunk) r) r cs)) = reimplementedFiles (current r)
   \<and> fetchedFiles (current (foldl (\<lambda>r chunk. commit (appendAnalysis chunk) r) r cs)) = fetchedFiles (current r)"
  by (induction cs arbitrary: r) (simp_all add: current_commit appendAnalysis_def)

lemma stage3_begin:
  assumes "at [complete, complete, pending, pending, pending] r00 r0"
  shows "at [complete, complete, in_progress, pending, pending] r00 (commit (updateStatus 3 in_progress) r0)"
proof -
  have s: "statusSteps (current r0) = withStatuses [complete, complete, pending, pending, pending]"
    using assms by (simp add: at_def)
  show ?thesis
    using assms updateStatus_ws(3) [OF s]
    by (rule at_step [where f = "updateStatus 3 in_progress"]) (simp_all add: allowed_def)
qed

lemma stage3_loop:
  assumes "at [complete, complete, pending, pending, pending] r00 r0"
  shows "at [complete, complete, in_progress, pending, pending] r00
     (foldl (\<lambda>r chunk. commit (appendAnalysis chunk) r)
        (commit (\<lambda>s. s\<lparr>analysisResult := Some []\<rparr>) (commit (updateStatus 3 in_progress) r0)) cs)"
proof -
  have "at [complete, complete, in_progress, pending, pending] r00
      (commit (\<lambda>s. s\<lparr>analysisResult := Some []\<rparr>) (commit (updateStatus 3 in_progress) r0))"
    using stage3_begin [OF assms] by (rule at_frame) (simp add: current_commit)
  then show ?thesis
    by (rule at_analysis)
qed

lemma afterStage3_at:
  assumes "at [complete, complete, pending, pending, pending] r00 r0"
  shows "at [complete, complete, complete, pending, pending] r00 (afterStage3 st r0)"
proof -
  let ?r3 = "foldl (\<lambda>r chunk. commit (appendAnalysis chunk) r)
        (commit (\<lambda>s. s\<lparr>analysisResult := Some []\<rparr>) (commit (updateStatus 3 in_progress) r0)) (chunks st)"
  have 3: "at [complete, complete, in_progress, pending, pending] r00 ?r3"
    using assms by (rule stage3_loop)
  then have s3: "statusSteps (current ?r3) = withStatuses [complete, complete, in_progress, pending, pending]"
    by (simp add: at_def)
  have "at [complete, complete, complete, pending, pending] r00 (commit (updateStatus 3 complete) ?r3)"
    using 3 updateStatus_ws(3) [OF s3]
    by (rule at_step [where f = "updateStatus 3 complete"]) (simp_all add: allowed_def)
  then show ?thesis
    unfolding afterStage3_def by (rule at_frame) (simp add: current_commit)
qed

lemma afterStage3_fields:
  "analysisResult (current (afterStage3 st r0)) = Some (concat (chunks st))"
  "errorMessage (current (afterStage3 st r0)) = errorMessage (current r0)"
  "fetchedFiles (current (afterStage3 st r0)) = fetchedFiles (current r0)"
proof -
  let ?r2 = "commit (\<lambda>s. s\<lparr>analysisResult := Some []\<rparr>) (commit (updateStatus 3 in_progress) r0)"
  have "analysisResult (current ?r2) = Some []"
    by (simp add: current_commit)
  from analysis_fold [OF this, of "chunks st"]
  show "analysisResult (current (afterStage3 st r0)) = Some (concat (chunks st))"
    by (simp add: afterStage3_def current_commit updateStatus_frame)
  show "errorMessage (current (afterStage3 st r0)) = errorMessage (current r0)"
    using analysis_frame [of ?r2 "chunks st"]
    by (simp add: afterStage3_def current_commit updateStatus_frame)
  show "fetchedFiles (current (afterStage3 st r0)) = fetchedFiles (current r0)"
    using analysis_frame [of ?r2 "chunks st"]
    by (simp add: afterStage3_def current_commit updateStatus_frame)
qed

lemma stage3_ok:
  assumes "analyzeCode env relevantFiles = Returns st" and "failure st = None"
  shows "stage3 env relevantFiles r0 = stage4 env relevantFiles (afterStage3 st r0)"
  using assms by (simp add: stage3_def Let_def afterStage3_def)

lemma stage3_at_error:
  assumes "at [complete, complete, pending, pending, pending] r00 r0"
    and "analyzeCode env relevantFiles = Throws x
       \<or> (\<exists>st. analyzeCode env relevantFiles = Returns st \<and> failure st = Some x)"
  shows "at [complete, complete, status_error, pending, pending] r00 (stage3 env relevantFiles r0)
       \<and> failed_with (message_of x) [complete, complete, status_error, pending, pending]
           (current (stage3 env relevantFiles r0))"
proof -
  from assms(2) show ?thesis
  proof
    assume "analyzeCode env relevantFiles = Throws x"
    then have "stage3 env relevantFiles r0 = catchError x (commit (updateStatus 3 in_progress) r0)"
      by (simp add: stage3_def Let_def)
    then show ?thesis
      using catch_failed [OF stage3_begin [OF assms(1)], of x] by simp
  next
    assume "\<exists>st. analyzeCode env relevantFiles = Returns st \<and> failure st = Some x"
    then obtain st where st: "analyzeCode env relevantFiles = Returns st" "failure st = Some x"
      by blast
    then have "stage3 env relevantFiles r0 = catchError x
        (foldl (\<lambda>r chunk. commit (appendAnalysis chunk) r)
          (commit (\<lambda>s. s\<lparr>analysisResult := Some []\<rparr>) (commit (updateStatus 3 in_progress) r0)) (chunks st))"
      by (simp add: stage3_def Let_def)
    then show ?thesis
      using catch_failed [OF stage3_loop [OF assms(1)], of x "chunks st"] by simp
  qed
qed

lemma stage3_at_any:
  assumes "at [complete, complete, pending, pending, pending] r00 r0"
  shows "\<exists>sts. at sts r00 (stage3 env relevantFiles r0)"
proof (cases "analyzeCode env relevantFiles")
  case (Throws x)
  then show ?thesis
    using stage3_at_error [OF assms, of env relevantFiles x] by blast
next
  case (Returns st)
  show ?thesis
  proof (cases "failure st")
    case None
    then show ?thesis
      using stage3_ok [OF Returns None, of r0] stage4_at_any [OF afterStage3_at [OF assms], of env relevantFiles st]
      by simp
  next
    case (Some x)
    then show ?thesis
      using stage3_at_error [OF assms, of env relevantFiles x] Returns by blast
  qed
qed

lemma stage2_begin:
  assumes "at [complete, pending, pending, pending, pending] r00 r0"
  shows "at [complete, in_progress, pending, pending, pending] r00 (commit (updateStatus 2 in_progress) r0)"
proof -
  have s: "statusSteps (current r0) = withStatuses [complete, pending, pending, pending, pending]"
    using assms by (simp add: at_def)
  show ?thesis
    using assms updateStatus_ws(2) [OF s]
    by (rule at_step [where f = "updateStatus 2 in_progress"]) (simp_all add: allowed_def)
qed

lemma afterStage2_at:
  assumes "at [complete, pending, pending, pending, pending] r00 r0"
  shows "at [complete, complete, pending, pending, pending] r00 (afterStage2 relevantFiles r0)"
proof -
  let ?r1 = "commit (updateStatus 2 in_progress) r0"
  have 1: "at [complete, in_progress, pending, pending, pending] r00 ?r1"
    using assms by (rule stage2_begin)
  then have s1: "statusSteps (current ?r1) = withStatuses [complete, in_progress, pending, pending, pending]"
    by (simp add: at_def)
  have "at [complete, complete, pending, pending, pending] r00 (commit (updateStatus 2 complete) ?r1)"
    using 1 updateStatus_ws(2) [OF s1]
    by (rule at_step [where f = "updateStatus 2 complete"]) (simp_all add: allowed_def)
  then show ?thesis
    unfolding afterStage2_def by (rule at_frame) (simp add: current_commit)
qed

lemma afterStage2_fields:
  "errorMessage (current (afterStage2 relevantFiles r0)) = errorMessage (current r0)"
  "fetchedFiles (current (afterStage2 relevantFiles r0)) = Some relevantFiles"
  by (simp_all add: afterStage2_def current_commit updateStatus_frame)

lemma stage2_ok:
  assumes "selectRelevantFiles env (map path allFiles) = Returns paths"
  shows "stage2 env allFiles r0
     = stage3 env (filter (\<lambda>f. path f \<in> set paths) allFiles)
         (afterStage2 (filter (\<lambda>f. path f \<in> set paths) allFiles) r0)"
  using assms by (simp add: stage2_def Let_def afterStage2_def)

lemma stage2_at_error:
  assumes "at [complete, pending, pending, pending, pending] r00 r0"
    and "selectRelevantFiles env (map path allFiles) = Throws x"
  shows "at [complete, status_error, pending, pending, pending] r00 (stage2 env allFiles r0)
       \<and> failed_with (message_of x) [complete, status_error, pending, pending, pending]
           (current (stage2 env allFiles r0))"
proof -
  have "stage2 env allFiles r0 = catchError x (commit (updateStatus 2 in_progress) r0)"
    using assms(2) by (simp add: stage2_def Let_def)
  then show ?thesis
    using catch_failed [OF stage2_begin [OF assms(1)], of x] by simp
qed

lemma stage2_at_any:
  assumes "at [complete, pending, pending, pending, pending] r00 r0"
  shows "\<exists>sts. at sts r00 (stage2 env allFiles r0)"
proof (cases "selectRelevantFiles env (map path allFiles)")
  case (Throws x)
  then show ?thesis
    using stage2_at_error [OF assms, of env allFiles x] by blast
next
  case (Returns paths)
  then show ?thesis
    using stage2_ok [OF Returns, of r0] stage3_at_any [OF afterStage2_at [OF assms]]
    by simp
qed

lemma reset_at:
  "at [pending, pending, pending, pending, pending] (commit resetState r0) (commit resetState r0)"
proof -
  have "statusSteps (current (commit resetState r0)) = withStatuses [pending, pending, pending, pending, pending]"
    by (simp add: current_commit resetState_def initialSteps_ws)
  then show ?thesis
    using one_in_progress_ws [of "current (commit resetState r0)" pending pending pending pending pending]
    by (intro at_start) simp_all
qed

lemma loading_at:
  "at [pending, pending, pending, pending, pending] (commit resetState r0)
     (commit (\<lambda>s. s\<lparr>appState := loading\<rparr>) (commit resetState r0))"
  using reset_at by (rule at_frame) (simp add: current_commit)

lemma stage1_begin:
  "at [in_progress, pending, pending, pending, pending] (commit resetState r0)
     (commit (updateStatus 1 in_progress) (commit (\<lambda>s. s\<lparr>appState := loading\<rparr>) (commit resetState r0)))"
proof -
  let ?r = "commit (\<lambda>s. s\<lparr>appState := loading\<rparr>) (commit resetState r0)"
  have s: "statusSteps (current ?r) = withStatuses [pending, pending, pending, pending, pending]"
    using loading_at [of r0] by (simp add: at_def)
  show ?thesis
    using loading_at updateStatus_ws(1) [OF s]
    by (rule at_step [where f = "updateStatus 1 in_progress"]) (simp_all add: allowed_def)
qed

lemma afterStage1_at:
  "at [complete, pending, pending, pending, pending] (commit resetState r0) (afterStage1 r0)"
proof -
  let ?r = "commit (updateStatus 1 in_progress) (commit (\<lambda>s. s\<lparr>appState := loading\<rparr>) (commit resetState r0))"
  have s: "statusSteps (current ?r) = withStatuses [in_progress, pending, pending, pending, pending]"
    using stage1_begin [of r0] by (simp add: at_def)
  show ?thesis
    unfolding afterStage1_def using stage1_begin updateStatus_ws(1) [OF s]
    by (rule at_step [where f = "updateStatus 1 complete"]) (simp_all add: allowed_def)
qed

lemma afterStage1_fields:
  "errorMessage (current (afterStage1 r0)) = None"
  "analysisResult (current (afterStage1 r0)) = None"
  by (simp_all add: afterStage1_def current_commit updateStatus_frame resetState_def)

lemma main_parse_throws:
  assumes "repoUrl (current r0) \<noteq> []"
    and "parseGithubUrl (parseURL env) (repoUrl (current r0)) = Throws x"
  shows "onAnalyzeRepo env r0
     = catchError x (commit (\<lambda>s. s\<lparr>appState := loading\<rparr>) (commit resetState r0))"
  using assms by (simp add: onAnalyzeRepo_def Let_def)

lemma main_fetch_throws:
  assumes "repoUrl (current r0) \<noteq> []"
    and "parseGithubUrl (parseURL env) (repoUrl (current r0)) = Returns (owner, repo)"
    and "getRepoFiles (fetch env) (fetchRest env) owner repo (githubToken (current r0)) = Throws x"
  shows "onAnalyzeRepo env r0
     = catchError x (commit (updateStatus 1 in_progress)
         (commit (\<lambda>s. s\<lparr>appState := loading\<rparr>) (commit resetState r0)))"
  using assms by (simp add: onAnalyzeRepo_def Let_def)

lemma main_empty:
  assumes "repoUrl (current r0) \<noteq> []"
    and "parseGithubUrl (parseURL env) (repoUrl (current r0)) = Returns (owner, repo)"
    and "getRepoFiles (fetch env) (fetchRest env) owner repo (githubToken (current r0)) = Returns []"
  shows "onAnalyzeRepo env r0
     = commit (handleError (js ''Repository appears to be empty or contains no readable files.''))
         (afterStage1 r0)"
  using assms by (simp add: onAnalyzeRepo_def Let_def afterStage1_def)

lemma main_ok:
  assumes "repoUrl (current r0) \<noteq> []"
    and "parseGithubUrl (parseURL env) (repoUrl (current r0)) = Returns (owner, repo)"
    and "getRepoFiles (fetch env) (fetchRest env) owner repo (githubToken (current r0)) = Returns allFiles"
    and "allFiles \<noteq> []"
  shows "onAnalyzeRepo env r0 = stage2 env allFiles (afterStage1 r0)"
  using assms by (simp add: onAnalyzeRepo_def Let_def afterStage1_def)

lemma main_at_any:
  assumes "repoUrl (current r0) \<noteq> []"
  shows "\<exists>sts. at sts (commit resetState r0) (onAnalyzeRepo env r0)"
proof (cases "parseGithubUrl (parseURL env) (repoUrl (current r0))")
  case (Throws x)
  then show ?thesis
    using main_parse_throws [OF assms Throws] catch_failed [OF loading_at [of r0], where x = x] by auto
next
  case (Returns p)
  obtain owner repo where p: "p = (owner, repo)"
    by (cases p)
  note R = Returns [unfolded p]
  show ?thesis
  proof (cases "getRepoFiles (fetch env) (fetchRest env) owner repo (githubToken (current r0))")
    case (Throws x)
    then show ?thesis
      using main_fetch_throws [OF assms R Throws] catch_failed [OF stage1_begin [of r0], where x = x] by auto
  next
    case (Returns allFiles)
    show ?thesis
    proof (cases "allFiles = []")
      case True
      then show ?thesis
        using main_empty [OF assms R] Returns
          at_handleError [OF afterStage1_at [of r0], where m = "js ''Repository appears to be empty or contains no readable files.''"]
        by auto
    next
      case False
      then show ?thesis
        using main_ok [OF assms R Returns False] stage2_at_any [OF afterStage1_at [of r0], where env = env and allFiles = allFiles]
        by simp
    qed
  qed
qed

lemma stage4_done_fields:
  assumes "reimplementCode env relevantFiles (analysisResult (current r0)) = Returns stream"
    and "failure stream = None"
  shows "appState (current (stage4 env relevantFiles r0)) = reimplemented"
    and "errorMessage (current (stage4 env relevantFiles r0)) = errorMessage (current r0)"
proof -
  let ?r2 = "commit (\<lambda>s. s\<lparr>reimplementedFiles := Some []\<rparr>) (commit (updateStatus 4 in_progress) r0)"
  let ?fs = "emitted (parseJSON env) (concat (chunks stream))"
  have s4: "current (stage4 env relevantFiles r0)
      = (updateStatus 5 complete (updateStatus 4 complete (current (appendAll ?fs ?r2))))\<lparr>appState := reimplemented\<rparr>"
    using assms by (simp add: stage4_done current_commit)
  show "appState (current (stage4 env relevantFiles r0)) = reimplemented"
    by (simp add: s4)
  show "errorMessage (current (stage4 env relevantFiles r0)) = errorMessage (current r0)"
    using appendAll_frame [of ?fs ?r2] by (simp add: s4 current_commit updateStatus_frame)
qed

lemma stage4_outcomes:
  assumes "at [complete, complete, complete, pending, pending] r00 r0"
    and "analysisResult (current r0) = a" and "errorMessage (current r0) = None"
  shows "(\<forall>x. reimplementCode env relevantFiles a = Throws x
             \<or> (\<exists>st'. reimplementCode env relevantFiles a = Returns st' \<and> failure st' = Some x)
           \<longrightarrow> failed_with (message_of x) [complete, complete, complete, status_error, pending]
                 (current (stage4 env relevantFiles r0)))
       \<and> (\<forall>st'. reimplementCode env relevantFiles a = Returns st' \<and> failure st' = None
           \<longrightarrow> appState (current (stage4 env relevantFiles r0)) = reimplemented
             \<and> errorMessage (current (stage4 env relevantFiles r0)) = None
             \<and> statuses (current (stage4 env relevantFiles r0))
                 = [complete, complete, complete, complete, complete])"
proof (intro conjI allI impI)
  fix x
  assume "reimplementCode env relevantFiles a = Throws x
             \<or> (\<exists>st'. reimplementCode env relevantFiles a = Returns st' \<and> failure st' = Some x)"
  then show "failed_with (message_of x) [complete, complete, complete, status_error, pending]
                 (current (stage4 env relevantFiles r0))"
    using stage4_at_error [OF assms(1), of env relevantFiles x] assms(2) by simp
next
  fix st'
  assume h: "reimplementCode env relevantFiles a = Returns st' \<and> failure st' = None"
  then have r: "reimplementCode env relevantFiles (analysisResult (current r0)) = Returns st'"
    and f: "failure st' = None"
    using assms(2) by simp_all
  show "appState (current (stage4 env relevantFiles r0)) = reimplemented"
    using r f by (rule stage4_done_fields)
  show "errorMessage (current (stage4 env relevantFiles r0)) = None"
    using stage4_done_fields(2) [OF r f] assms(3) by simp
  show "statuses (current (stage4 env relevantFiles r0)) = [complete, complete, complete, complete, complete]"
    using stage4_at_done [OF assms(1) r f] by (simp add: at_def statuses_ws)
qed

lemma stage3_outcomes:
  assumes "at [complete, complete, pending, pending, pending] r00 r0"
    and "errorMessage (current r0) = None"
  shows "(\<forall>x. analyzeCode env relevantFiles = Throws x
             \<or> (\<exists>st. analyzeCode env relevantFiles = Returns st \<and> failure st = Some x)
           \<longrightarrow> failed_with (message_of x) [complete, complete, status_error, pending, pending]
                 (current (stage3 env relevantFiles r0)))
       \<and> (\<forall>st. analyzeCode env relevantFiles = Returns st \<and> failure st = None
           \<longrightarrow> (\<forall>x. reimplementCode env relevantFiles (Some (concat (chunks st))) = Throws x
                      \<or> (\<exists>st'. reimplementCode env relevantFiles (Some (concat (chunks st))) = Returns st'
                             \<and> failure st' = Some x)
                    \<longrightarrow> failed_with (message_of x) [complete, complete, complete, status_error, pending]
                          (current (stage3 env relevantFiles r0)))
              \<and> (\<forall>st'. reimplementCode env relevantFiles (Some (concat (chunks st))) = Returns st'
                         \<and> failure st' = None
                    \<longrightarrow> appState (current (stage3 env relevantFiles r0)) = reimplemented
                      \<and> errorMessage (current (stage3 env relevantFiles r0)) = None
                      \<and> statuses (current (stage3 env relevantFiles r0))
                          = [complete, complete, complete, complete, complete]))"
proof (intro conjI allI impI)
  fix x
  assume "analyzeCode env relevantFiles = Throws x
             \<or> (\<exists>st. analyzeCode env relevantFiles = Returns st \<and> failure st = Some x)"
  then show "failed_with (message_of x) [complete, complete, status_error, pending, pending]
                 (current (stage3 env relevantFiles r0))"
    using stage3_at_error [OF assms(1), of env relevantFiles x] by simp
next
  fix st x
  assume ok: "analyzeCode env relevantFiles = Returns st \<and> failure st = None"
    and bad: "reimplementCode env relevantFiles (Some (concat (chunks st))) = Throws x
                      \<or> (\<exists>st'. reimplementCode env relevantFiles (Some (concat (chunks st))) = Returns st'
                             \<and> failure st' = Some x)"
  have eq: "stage3 env relevantFiles r0 = stage4 env relevantFiles (afterStage3 st r0)"
    using ok by (simp add: stage3_ok)
  have em: "errorMessage (current (afterStage3 st r0)) = None"
    using afterStage3_fields(2) [of st r0] assms(2) by simp
  note S4 = stage4_outcomes [OF afterStage3_at [OF assms(1)] afterStage3_fields(1) em,
      where env = env and relevantFiles = relevantFiles]
  show "failed_with (message_of x) [complete, complete, complete, status_error, pending]
                          (current (stage3 env relevantFiles r0))"
    unfolding eq using S4 bad by blast
next
  fix st st'
  assume ok: "analyzeCode env relevantFiles = Returns st \<and> failure st = None"
    and good: "reimplementCode env relevantFiles (Some (concat (chunks st))) = Returns st'
                         \<and> failure st' = None"
  have eq: "stage3 env relevantFiles r0 = stage4 env relevantFiles (afterStage3 st r0)"
    using ok by (simp add: stage3_ok)
  have em: "errorMessage (current (afterStage3 st r0)) = None"
    using afterStage3_fields(2) [of st r0] assms(2) by simp
  note S4 = stage4_outcomes [OF afterStage3_at [OF assms(1)] afterStage3_fields(1) em,
      where env = env and relevantFiles = relevantFiles]
  have "appState (current (stage3 env relevantFiles r0)) = reimplemented
        \<and> errorMessage (current (stage3 env relevantFiles r0)) = None
        \<and> statuses (current (stage3 env relevantFiles r0))
                          = [complete, complete, complete, complete, complete]"
    unfolding eq using S4 good by blast
  then show "appState (current (stage3 env relevantFiles r0)) = reimplemented"
    and "errorMessage (current (stage3 env relevantFiles r0)) = None"
    and "statuses (current (stage3 env relevantFiles r0))
                          = [complete, complete, complete, complete, complete]"
    by simp_all
qed

lemma stage3_flat:
  assumes "at [complete, complete, pending, pending, pending] r00 r0"
    and "errorMessage (current r0) = None"
  shows "analyzeCode env relevantFiles = Throws x
             \<or> (\<exists>st. analyzeCode env relevantFiles = Returns st \<and> failure st = Some x)
           \<Longrightarrow> failed_with (message_of x) [complete, complete, status_error, pending, pending]
                 (current (stage3 env relevantFiles r0))"
    and "analyzeCode env relevantFiles = Returns st \<Longrightarrow> failure st = None \<Longrightarrow>
         reimplementCode env relevantFiles (Some (concat (chunks st))) = Throws x
           \<or> (\<exists>st'. reimplementCode env relevantFiles (Some (concat (chunks st))) = Returns st'
                  \<and> failure st' = Some x)
         \<Longrightarrow> failed_with (message_of x) [complete, complete, complete, status_error, pending]
               (current (stage3 env relevantFiles r0))"
    and "analyzeCode env relevantFiles = Returns st \<Longrightarrow> failure st = None \<Longrightarrow>
         reimplementCode env relevantFiles (Some (concat (chunks st))) = Returns st' \<Longrightarrow>
         failure st' = None
         \<Longrightarrow> succeeded (current (stage3 env relevantFiles r0))"
  using stage3_outcomes [OF assms, of env relevantFiles] unfolding succeeded_def by blast+

lemma stage2_flat:
  assumes "at [complete, pending, pending, pending, pending] r00 r0"
    and "errorMessage (current r0) = None"
  shows "selectRelevantFiles env (map path allFiles) = Throws x
         \<Longrightarrow> failed_with (message_of x) [complete, status_error, pending, pending, pending]
               (current (stage2 env allFiles r0))"
    and "selectRelevantFiles env (map path allFiles) = Returns paths \<Longrightarrow>
         analyzeCode env (filter (\<lambda>f. path f \<in> set paths) allFiles) = Throws x
           \<or> (\<exists>st. analyzeCode env (filter (\<lambda>f. path f \<in> set paths) allFiles) = Returns st
                  \<and> failure st = Some x)
         \<Longrightarrow> failed_with (message_of x) [complete, complete, status_error, pending, pending]
               (current (stage2 env allFiles r0))"
    and "selectRelevantFiles env (map path allFiles) = Returns paths \<Longrightarrow>
         analyzeCode env (filter (\<lambda>f. path f \<in> set paths) allFiles) = Returns st \<Longrightarrow>
         failure st = None \<Longrightarrow>
         reimplementCode env (filter (\<lambda>f. path f \<in> set paths) allFiles) (Some (concat (chunks st))) = Throws x
           \<or> (\<exists>st'. reimplementCode env (filter (\<lambda>f. path f \<in> set paths) allFiles)
                       (Some (concat (chunks st))) = Returns st' \<and> failure st' = Some x)
         \<Longrightarrow> failed_with (message_of x) [complete, complete, complete, status_error, pending]
               (current (stage2 env allFiles r0))"
    and "selectRelevantFiles env (map path allFiles) = Returns paths \<Longrightarrow>
         analyzeCode env (filter (\<lambda>f. path f \<in> set paths) allFiles) = Returns st \<Longrightarrow>
         failure st = None \<Longrightarrow>
         reimplementCode env (filter (\<lambda>f. path f \<in> set paths) allFiles) (Some (concat (chunks st)))
           = Returns st' \<Longrightarrow>
         failure st' = None
         \<Longrightarrow> succeeded (current (stage2 env allFiles r0))"
proof -
  show "selectRelevantFiles env (map path allFiles) = Throws x
         \<Longrightarrow> failed_with (message_of x) [complete, status_error, pending, pending, pending]
               (current (stage2 env allFiles r0))"
    using stage2_at_error [OF assms(1), of env allFiles x] by simp
next
  let ?rf = "filter (\<lambda>f. path f \<in> set paths) allFiles"
  have em: "errorMessage (current (afterStage2 ?rf r0)) = None"
    using assms(2) by (simp add: afterStage2_fields)
  note S3 = stage3_flat [OF afterStage2_at [OF assms(1)] em, where env = env and relevantFiles = ?rf]
  show "selectRelevantFiles env (map path allFiles) = Returns paths \<Longrightarrow>
         analyzeCode env ?rf = Throws x
           \<or> (\<exists>st. analyzeCode env ?rf = Returns st \<and> failure st = Some x)
         \<Longrightarrow> failed_with (message_of x) [complete, complete, status_error, pending, pending]
               (current (stage2 env allFiles r0))"
    using S3(1) [of x] by (simp add: stage2_ok)
  show "selectRelevantFiles env (map path allFiles) = Returns paths \<Longrightarrow>
         analyzeCode env ?rf = Returns st \<Longrightarrow> failure st = None \<Longrightarrow>
         reimplementCode env ?rf (Some (concat (chunks st))) = Throws x
           \<or> (\<exists>st'. reimplementCode env ?rf (Some (concat (chunks st))) = Returns st' \<and> failure st' = Some x)
         \<Longrightarrow> failed_with (message_of x) [complete, complete, complete, status_error, pending]
               (current (stage2 env allFiles r0))"
    using S3(2) [of st x] by (simp add: stage2_ok)
  show "selectRelevantFiles env (map path allFiles) = Returns paths \<Longrightarrow>
         analyzeCode env ?rf = Returns st \<Longrightarrow> failure st = None \<Longrightarrow>
         reimplementCode env ?rf (Some (concat (chunks st))) = Returns st' \<Longrightarrow>
         failure st' = None
         \<Longrightarrow> succeeded (current (stage2 env allFiles r0))"
    using S3(3) [of st st'] by (simp add: stage2_ok)
qed

lemma current_pair: "current (s0, h) = s0"
  by (simp add: current_def)

lemma handleError_steps:
  assumes "distinct (map step_id (statusSteps s))"
  shows "statusSteps (handleError m s) =
     (case find (\<lambda>st. step_status st = in_progress) (statusSteps s) of
        None \<Rightarrow> statusSteps s
      | Some ip \<Rightarrow> map (\<lambda>st. if st = ip then st\<lparr>step_status := status_error\<rparr> else st) (statusSteps s))"
proof (cases "find (\<lambda>st. step_status st = in_progress) (statusSteps s)")
  case None
  then show ?thesis
    by (simp add: handleError_def Let_def)
next
  case (Some ip)
  then have mem: "ip \<in> set (statusSteps s)"
    by (auto simp: find_Some_iff)
  have inj: "inj_on step_id (set (statusSteps s))"
    using assms by (simp add: distinct_map)
  have "map (\<lambda>step. if step_id step = step_id ip then step\<lparr>step_status := status_error\<rparr> else step) (statusSteps s)
      = map (\<lambda>st. if st = ip then st\<lparr>step_status := status_error\<rparr> else st) (statusSteps s)"
  proof (rule map_cong)
    fix st assume "st \<in> set (statusSteps s)"
    then have "step_id st = step_id ip \<longleftrightarrow> st = ip"
      using inj mem by (auto dest: inj_onD)
    then show "(if step_id st = step_id ip then st\<lparr>step_status := status_error\<rparr> else st)
        = (if st = ip then st\<lparr>step_status := status_error\<rparr> else st)"
      by simp
  qed simp
  then show ?thesis
    using Some by (simp add: handleError_def Let_def updateStatus_def)
qed

section \<open>The scenarios of the specification, run on the model\<close>

text \<open>Two objects over three chunks, in order.\<close>

lemma scenario_three_chunks:
  \<open>files_of (current (fst (feedChunks JSON_parse ((initialApp, []), [])
      [js ''{"path":"a.'',
       js ''ts","content":"x"}'' @ [0x0A] @ js ''{"path":"b.ts",'',
       js ''"content":"y"}''])))
   = [JObj [(js ''path'', JStr (js ''a.ts'')), (js ''content'', JStr (js ''x''))],
      JObj [(js ''path'', JStr (js ''b.ts'')), (js ''content'', JStr (js ''y''))]]\<close>
  by code_simp

text \<open>An object wrapped in a code fence: the fence before it is dropped, the one after it cleared.\<close>

lemma scenario_fenced:
  \<open>feedChunks JSON_parse ((initialApp, []), [])
      [js ''```json'' @ [0x0A] @ js ''{"path":"a.ts","content":"z"}```'']
   = (commit (appendFile (JObj [(js ''path'', JStr (js ''a.ts'')), (js ''content'', JStr (js ''z''))]))
        (initialApp, []), [])\<close>
  by code_simp

text \<open>A candidate that is not JSON between two objects: the two objects, in order.\<close>

lemma scenario_malformed_between:
  \<open>files_of (current (fst (feedChunks JSON_parse ((initialApp, []), [])
      [js ''{"path":"a.ts","content":"x"}{"path":}{"path":"b.ts","content":"y"}''])))
   = [JObj [(js ''path'', JStr (js ''a.ts'')), (js ''content'', JStr (js ''x''))],
      JObj [(js ''path'', JStr (js ''b.ts'')), (js ''content'', JStr (js ''y''))]]\<close>
  by code_simp

section \<open>Claims about the stream parser\<close>

text \<open>
  C1 (chunk-split invariance), as the code has it. For every text, every
  \<open>JSON.parse\<close> and every way of cutting the text into chunks (empty chunks included),
  feeding the chunks one by one leaves the same run, hence the same records in the same
  order, as feeding the whole text as one chunk. A single object yields exactly one
  record however it is cut, provided the brace count of the text first returns to zero
  at its last character and \<open>JSON.parse\<close> accepts it with truthy \<open>path\<close> and \<open>content\<close>.
  Braces are counted inside string values too, so an object whose strings hold an
  unbalanced brace is outside this second part.
\<close>

theorem chunk_split_invariance:
  "fst (feedChunks parse (r, []) cs) = fst (feedChunks parse (r, []) [concat cs])
   \<and> (take 1 (concat cs) = [LBRACE]
        \<and> findObjectEnd (concat cs) 0 0 = Some (length (concat cs) - 1)
        \<and> parse (concat cs) = Some file \<and> accepted file
      \<longrightarrow> fst (feedChunks parse (r, []) cs) = commit (appendFile file) r)"
proof (intro conjI impI)
  show "fst (feedChunks parse (r, []) cs) = fst (feedChunks parse (r, []) [concat cs])"
    by (rule feedChunks_concat)
next
  assume a: "take 1 (concat cs) = [LBRACE]
        \<and> findObjectEnd (concat cs) 0 0 = Some (length (concat cs) - 1)
        \<and> parse (concat cs) = Some file \<and> accepted file"
  then have "candidates (concat cs) = [concat cs]"
    by (simp add: candidates_single)
  with a have "emitted parse (concat cs) = [file]"
    by (simp add: emitted_def List.map_filter_def)
  then show "fst (feedChunks parse (r, []) cs) = commit (appendFile file) r"
    by (simp add: feedChunks_emitted appendAll_def)
qed

text \<open>C1 at a concrete input: one object cut in two chunks gives its one record.\<close>

theorem chunk_split_invariance_witness:
  \<open>take 1 (concat [js ''{"path":"a.'', js ''ts","content":"x"}'']) = [LBRACE]
   \<and> findObjectEnd (concat [js ''{"path":"a.'', js ''ts","content":"x"}'']) 0 0
       = Some (length (concat [js ''{"path":"a.'', js ''ts","content":"x"}'']) - 1)
   \<and> JSON_parse (concat [js ''{"path":"a.'', js ''ts","content":"x"}''])
       = Some (JObj [(js ''path'', JStr (js ''a.ts'')), (js ''content'', JStr (js ''x''))])
   \<and> accepted (JObj [(js ''path'', JStr (js ''a.ts'')), (js ''content'', JStr (js ''x''))])
   \<and> fst (feedChunks JSON_parse ((initialApp, []), []) [js ''{"path":"a.'', js ''ts","content":"x"}''])
       = commit (appendFile (JObj [(js ''path'', JStr (js ''a.ts'')), (js ''content'', JStr (js ''x''))]))
           (initialApp, [])\<close>
proof -
  let ?cs = \<open>[js ''{"path":"a.'', js ''ts","content":"x"}'']\<close>
  let ?file = \<open>JObj [(js ''path'', JStr (js ''a.ts'')), (js ''content'', JStr (js ''x''))]\<close>
  have h1: "take 1 (concat ?cs) = [LBRACE]"
    by code_simp
  have h2: "findObjectEnd (concat ?cs) 0 0 = Some (length (concat ?cs) - 1)"
    by code_simp
  have h3: "JSON_parse (concat ?cs) = Some ?file"
    by code_simp
  have h4: "accepted ?file"
    by code_simp
  from chunk_split_invariance [of JSON_parse "(initialApp, [])" ?cs ?file] h1 h2 h3 h4
  have "fst (feedChunks JSON_parse ((initialApp, []), []) ?cs) = commit (appendFile ?file) (initialApp, [])"
    by blast
  with h1 h2 h3 h4 show ?thesis
    by blast
qed

text \<open>
  C1 as stated fails: this valid object with non-empty \<open>path\<close> and \<open>content\<close> yields no
  record, whole or cut in two, because the closing brace inside its string ends the
  brace count early.
\<close>

theorem chunk_single_object_counterexample:
  \<open>JSON_parse (js ''{"path":"a","content":"}"}'')
     = Some (JObj [(js ''path'', JStr (js ''a'')), (js ''content'', JStr (js ''}''))])
   \<and> fst (feedChunks JSON_parse ((initialApp, []), []) [js ''{"path":"a","content":"}"}''])
     = (initialApp, [])
   \<and> fst (feedChunks JSON_parse ((initialApp, []), []) [js ''{"path":"a","con'', js ''tent":"}"}''])
     = (initialApp, [])\<close>
  by code_simp

text \<open>
  C2 (candidate validation), as the code has it. A candidate is appended exactly when
  \<open>JSON.parse\<close> returns a value for it and \<open>file.path && file.content\<close> is truthy, that is,
  when the value is an object whose \<open>path\<close> and \<open>content\<close> members (the last of each
  name) are truthy: a non-empty string, a non-zero number, \<open>true\<close>, an array or an
  object. Further members are allowed and kept. Any other candidate leaves the run as it
  is. Either way the pass goes on with the rest of the buffer, and the stream loop never
  touches the app state or the error message.
\<close>

theorem candidate_validation:
  "tryParse parse objectStr r =
     (case parse objectStr of
        None \<Rightarrow> r
      | Some file \<Rightarrow> if accepted file then commit (appendFile file) r else r)
   \<and> (accepted file \<longleftrightarrow>
        (\<exists>kvs p c. file = JObj kvs
           \<and> map_of (rev kvs) (js ''path'') = Some p \<and> truthy p
           \<and> map_of (rev kvs) (js ''content'') = Some c \<and> truthy c))
   \<and> (LBRACE \<in> set b \<and> findObjectEnd (fromBrace b) 0 0 = Some e \<longrightarrow>
        processBuffer parse (r, b) =
          processBuffer parse (tryParse parse (take (e + 1) (fromBrace b)) r, drop (e + 1) (fromBrace b)))
   \<and> appState (current (fst (feedChunks parse (r, b) cs))) = appState (current r)
   \<and> errorMessage (current (fst (feedChunks parse (r, b) cs))) = errorMessage (current r)"
proof -
  obtain fs where "fst (feedChunks parse (r, b) cs) = appendAll fs r"
    using feedChunks_appendAll by blast
  then have "appState (current (fst (feedChunks parse (r, b) cs))) = appState (current r)
     \<and> errorMessage (current (fst (feedChunks parse (r, b) cs))) = errorMessage (current r)"
    using appendAll_frame [of fs r] by simp
  then show ?thesis
    using tryParse_eq [of parse objectStr r] accepted_iff [of "file"]
      processBuffer_found [of b e parse r]
    by blast
qed

text \<open>C2 at a concrete buffer: a candidate that is not JSON is dropped and the object after it is appended.\<close>

theorem candidate_validation_witness:
  \<open>LBRACE \<in> set (js ''{bad}{"path":"a.ts","content":"x"}'')
   \<and> findObjectEnd (fromBrace (js ''{bad}{"path":"a.ts","content":"x"}'')) 0 0 = Some 4
   \<and> processBuffer JSON_parse ((initialApp, []), js ''{bad}{"path":"a.ts","content":"x"}'')
       = processBuffer JSON_parse
           (tryParse JSON_parse (take (4 + 1) (fromBrace (js ''{bad}{"path":"a.ts","content":"x"}''))) (initialApp, []),
            drop (4 + 1) (fromBrace (js ''{bad}{"path":"a.ts","content":"x"}'')))
   \<and> tryParse JSON_parse (js ''{bad}'') (initialApp, []) = (initialApp, [])
   \<and> files_of (current (fst (processBuffer JSON_parse ((initialApp, []), js ''{bad}{"path":"a.ts","content":"x"}''))))
       = [JObj [(js ''path'', JStr (js ''a.ts'')), (js ''content'', JStr (js ''x''))]]\<close>
proof -
  let ?b = \<open>js ''{bad}{"path":"a.ts","content":"x"}''\<close>
  have h1: "LBRACE \<in> set ?b"
    by code_simp
  have h2: "findObjectEnd (fromBrace ?b) 0 0 = Some 4"
    by code_simp
  from candidate_validation [of JSON_parse "[]" "(initialApp, [])" JNull ?b 4 "[]"] h1 h2
  have c: "processBuffer JSON_parse ((initialApp, []), ?b)
       = processBuffer JSON_parse
           (tryParse JSON_parse (take (4 + 1) (fromBrace ?b)) (initialApp, []), drop (4 + 1) (fromBrace ?b))"
    by blast
  have t: "tryParse JSON_parse (js ''{bad}'') (initialApp, []) = (initialApp, [])"
    by code_simp
  have f: "files_of (current (fst (processBuffer JSON_parse ((initialApp, []), ?b))))
       = [JObj [(js ''path'', JStr (js ''a.ts'')), (js ''content'', JStr (js ''x''))]]"
    by code_simp
  from h1 h2 c t f show ?thesis
    by blast
qed

text \<open>
  C2 as stated fails: this candidate has a number and a boolean for \<open>path\<close> and \<open>content\<close>
  and a third member, and is appended all the same.
\<close>

theorem candidate_validation_counterexample:
  \<open>JSON_parse (js ''{"path":1,"content":true,"extra":null}'')
     = Some (JObj [(js ''path'', JNum 1 0), (js ''content'', JBool True), (js ''extra'', JNull)])
   \<and> tryParse JSON_parse (js ''{"path":1,"content":true,"extra":null}'') (initialApp, [])
     = commit (appendFile (JObj [(js ''path'', JNum 1 0), (js ''content'', JBool True), (js ''extra'', JNull)]))
         (initialApp, [])
   \<and> files_of (current (tryParse JSON_parse (js ''{"path":1,"content":true,"extra":null}'') (initialApp, [])))
     = [JObj [(js ''path'', JNum 1 0), (js ''content'', JBool True), (js ''extra'', JNull)]]\<close>
  by code_simp

text \<open>
  C3 (the buffer after a pass), as the code has it. A pass over a buffer without an
  opening brace changes nothing but the buffer: with a closing brace in it the buffer is
  left untouched, otherwise its fence markers are removed and it is trimmed, so that
  other brace-free text stays. A pass over a buffer whose first object is incomplete
  keeps the buffer from that object's opening brace on, intact, and appends nothing. A
  pass that finds a complete object goes on with exactly the text after it. Hence the
  buffer left by any pass is given by the text the pass has not consumed, a suffix of
  the buffer it started from: that text itself when it has a brace, in which case it
  starts with an opening brace whose count never returns to zero, otherwise that text
  with the fence markers removed and trimmed.
\<close>

theorem buffer_invariant:
  "(LBRACE \<notin> set b \<longrightarrow>
      processBuffer parse (r, b) = (r, if RBRACE \<in> set b then b else js_trim (replace_fences b)))
   \<and> (LBRACE \<in> set b \<and> findObjectEnd (fromBrace b) 0 0 = None \<longrightarrow>
        processBuffer parse (r, b) = (r, fromBrace b))
   \<and> (LBRACE \<in> set b \<and> findObjectEnd (fromBrace b) 0 0 = Some e \<longrightarrow>
        processBuffer parse (r, b) =
          processBuffer parse (tryParse parse (take (e + 1) (fromBrace b)) r, drop (e + 1) (fromBrace b)))
   \<and> snd (processBuffer parse (r, b))
        = (if LBRACE \<in> set (unconsumed b) then unconsumed b
           else if RBRACE \<in> set (unconsumed b) then unconsumed b
           else js_trim (replace_fences (unconsumed b)))
   \<and> drop (length b - length (unconsumed b)) b = unconsumed b
   \<and> (LBRACE \<in> set (unconsumed b) \<longrightarrow>
        take 1 (unconsumed b) = [LBRACE] \<and> findObjectEnd (unconsumed b) 0 0 = None)"
proof (intro conjI impI)
  assume "LBRACE \<notin> set b"
  then show "processBuffer parse (r, b) = (r, if RBRACE \<in> set b then b else js_trim (replace_fences b))"
    by (simp add: processBuffer_noise cleanup_eq)
next
  assume "LBRACE \<in> set b \<and> findObjectEnd (fromBrace b) 0 0 = None"
  then show "processBuffer parse (r, b) = (r, fromBrace b)"
    by (simp add: processBuffer_incomplete)
next
  assume "LBRACE \<in> set b \<and> findObjectEnd (fromBrace b) 0 0 = Some e"
  then show "processBuffer parse (r, b) =
          processBuffer parse (tryParse parse (take (e + 1) (fromBrace b)) r, drop (e + 1) (fromBrace b))"
    using processBuffer_found [of b e parse r] by simp
next
  show "snd (processBuffer parse (r, b))
        = (if LBRACE \<in> set (unconsumed b) then unconsumed b
           else if RBRACE \<in> set (unconsumed b) then unconsumed b
           else js_trim (replace_fences (unconsumed b)))"
    by (simp add: processBuffer_unconsumed cleanup_eq)
next
  show "drop (length b - length (unconsumed b)) b = unconsumed b"
    by (rule unconsumed_drop)
next
  assume "LBRACE \<in> set (unconsumed b)"
  then show "take 1 (unconsumed b) = [LBRACE]" and "findObjectEnd (unconsumed b) 0 0 = None"
    using unconsumed_shape [of b] by simp_all
qed

text \<open>
  C3 at concrete buffers: text and a fence without braces, a lone closing brace, an
  incomplete object after other text, and a finished object followed by the start of
  the next.
\<close>

theorem buffer_invariant_witness:
  \<open>LBRACE \<notin> set (js '' hello ``` '')
   \<and> processBuffer JSON_parse ((initialApp, []), js '' hello ``` '') = ((initialApp, []), js ''hello'')
   \<and> LBRACE \<notin> set (js '' } '')
   \<and> processBuffer JSON_parse ((initialApp, []), js '' } '') = ((initialApp, []), js '' } '')
   \<and> LBRACE \<in> set (js ''x{"path":"b'')
   \<and> findObjectEnd (fromBrace (js ''x{"path":"b'')) 0 0 = None
   \<and> processBuffer JSON_parse ((initialApp, []), js ''x{"path":"b'') = ((initialApp, []), js ''{"path":"b'')
   \<and> unconsumed (js ''{"path":"a.ts","content":"x"}{"path":"b'') = js ''{"path":"b''
   \<and> LBRACE \<in> set (unconsumed (js ''{"path":"a.ts","content":"x"}{"path":"b''))
   \<and> snd (processBuffer JSON_parse ((initialApp, []), js ''{"path":"a.ts","content":"x"}{"path":"b''))
       = js ''{"path":"b''
   \<and> findObjectEnd (unconsumed (js ''{"path":"a.ts","content":"x"}{"path":"b'')) 0 0 = None\<close>
proof -
  let ?r = "(initialApp, []) :: run"
  let ?n = \<open>js '' hello ``` ''\<close>
  let ?c = \<open>js '' } ''\<close>
  let ?i = \<open>js ''x{"path":"b''\<close>
  let ?b = \<open>js ''{"path":"a.ts","content":"x"}{"path":"b''\<close>
  have n1: "LBRACE \<notin> set ?n" by code_simp
  have n2: "(if RBRACE \<in> set ?n then ?n else js_trim (replace_fences ?n)) = js ''hello''"
    by code_simp
  have c1: "LBRACE \<notin> set ?c" by code_simp
  have c2: "(if RBRACE \<in> set ?c then ?c else js_trim (replace_fences ?c)) = ?c"
    by code_simp
  have i1: "LBRACE \<in> set ?i" by code_simp
  have i2: "findObjectEnd (fromBrace ?i) 0 0 = None" by code_simp
  have i3: "fromBrace ?i = js ''{\"path\":\"b''" by code_simp
  have u1: "unconsumed ?b = js ''{\"path\":\"b''" by code_simp
  have u2: "LBRACE \<in> set (unconsumed ?b)" by code_simp
  from buffer_invariant [of ?n JSON_parse ?r] n1 n2
  have N: "processBuffer JSON_parse (?r, ?n) = (?r, js ''hello'')"
    by simp
  from buffer_invariant [of ?c JSON_parse ?r] c1 c2
  have C: "processBuffer JSON_parse (?r, ?c) = (?r, ?c)"
    by simp
  from buffer_invariant [of ?i JSON_parse ?r] i1 i2 i3
  have I: "processBuffer JSON_parse (?r, ?i) = (?r, js ''{\"path\":\"b'')"
    by simp
  from buffer_invariant [of ?b JSON_parse ?r] u1 u2
  have B: "snd (processBuffer JSON_parse (?r, ?b)) = js ''{\"path\":\"b''"
    and F: "findObjectEnd (unconsumed ?b) 0 0 = None"
    by simp_all
  from n1 N c1 C i1 i2 I u1 u2 B F show ?thesis
    by blast
qed

text \<open>
  C3 as stated fails: text without braces that is neither white space nor a fence stays
  in the buffer, which then is neither empty nor the start of an object.
\<close>

theorem buffer_invariant_counterexample:
  \<open>snd (feedChunk JSON_parse ((initialApp, []), []) (js ''hello'')) = js ''hello''
   \<and> snd (feedChunk JSON_parse ((initialApp, []), []) (js ''hello'')) \<noteq> []
   \<and> take 1 (snd (feedChunk JSON_parse ((initialApp, []), []) (js ''hello''))) \<noteq> [LBRACE]\<close>
  by code_simp

text \<open>
  C4 (stream end). When the re-implementation stream ends without throwing, whatever
  is left in the buffer, stage 4 finishes: the records of the final state are those the
  loop had appended after the last chunk, namely the accepted candidates completed in
  the text, the app state is \<open>reimplemented\<close>, and the error message is the one the run
  had before (none, after a reset). The model's functions are total, so the loop ends
  for every stream.
\<close>

theorem stream_end_truncation:
  "reimplementCode env relevantFiles (analysisResult (current r0)) = Returns stream
   \<and> failure stream = None
   \<longrightarrow> files_of (current (stage4 env relevantFiles r0))
         = files_of (current (fst (feedChunks (parseJSON env)
              (commit (\<lambda>s. s\<lparr>reimplementedFiles := Some []\<rparr>) (commit (updateStatus 4 in_progress) r0), [])
              (chunks stream))))
     \<and> files_of (current (stage4 env relevantFiles r0))
         = filter accepted (List.map_filter (parseJSON env) (candidates (concat (chunks stream))))
     \<and> appState (current (stage4 env relevantFiles r0)) = reimplemented
     \<and> errorMessage (current (stage4 env relevantFiles r0)) = errorMessage (current r0)"
proof
  assume a: "reimplementCode env relevantFiles (analysisResult (current r0)) = Returns stream
   \<and> failure stream = None"
  let ?r2 = "commit (\<lambda>s. s\<lparr>reimplementedFiles := Some []\<rparr>) (commit (updateStatus 4 in_progress) r0)"
  let ?fs = "emitted (parseJSON env) (concat (chunks stream))"
  have s4: "current (stage4 env relevantFiles r0)
      = (updateStatus 5 complete (updateStatus 4 complete (current (appendAll ?fs ?r2))))\<lparr>appState := reimplemented\<rparr>"
    using a by (simp add: stage4_done current_commit)
  have "files_of (current ?r2) = []"
    by (simp add: current_commit files_of_def)
  then have f: "files_of (current (appendAll ?fs ?r2)) = ?fs"
    by (simp only: files_of_appendAll append_Nil)
  have e: "errorMessage (current (appendAll ?fs ?r2)) = errorMessage (current r0)"
    using appendAll_frame [of ?fs ?r2] by (simp add: current_commit updateStatus_frame)
  have 1: "files_of (current (stage4 env relevantFiles r0)) = ?fs"
    using f by (simp add: s4 files_of_def updateStatus_frame)
  have 2: "errorMessage (current (stage4 env relevantFiles r0)) = errorMessage (current r0)"
    using e by (simp add: s4 updateStatus_frame)
  have 3: "appState (current (stage4 env relevantFiles r0)) = reimplemented"
    by (simp add: s4)
  show "files_of (current (stage4 env relevantFiles r0))
         = files_of (current (fst (feedChunks (parseJSON env) (?r2, []) (chunks stream))))
     \<and> files_of (current (stage4 env relevantFiles r0))
         = filter accepted (List.map_filter (parseJSON env) (candidates (concat (chunks stream))))
     \<and> appState (current (stage4 env relevantFiles r0)) = reimplemented
     \<and> errorMessage (current (stage4 env relevantFiles r0)) = errorMessage (current r0)"
    using 1 2 3 f by (simp add: feedChunks_emitted emitted_def)
qed

text \<open>C4 at a concrete stream that ends inside its second object: the buffer left is not empty.\<close>

theorem stream_end_truncation_witness:
  \<open>reimplementCode sampleEnv sampleFiles (analysisResult (current (initialApp, [])))
     = Returns \<lparr>chunks = [js ''{"path":"a.'', js ''ts","content":"x"}{"path":"b.ts",''], failure = None\<rparr>
   \<and> snd (feedChunks JSON_parse ((initialApp, []), [])
          [js ''{"path":"a.'', js ''ts","content":"x"}{"path":"b.ts",'']) = js ''{"path":"b.ts",''
   \<and> files_of (current (stage4 sampleEnv sampleFiles (initialApp, [])))
       = [JObj [(js ''path'', JStr (js ''a.ts'')), (js ''content'', JStr (js ''x''))]]
   \<and> appState (current (stage4 sampleEnv sampleFiles (initialApp, []))) = reimplemented
   \<and> errorMessage (current (stage4 sampleEnv sampleFiles (initialApp, []))) = None\<close>
proof -
  let ?stream = \<open>\<lparr>chunks = [js ''{"path":"a.'', js ''ts","content":"x"}{"path":"b.ts",''], failure = None\<rparr>\<close>
  have h1: "reimplementCode sampleEnv sampleFiles (analysisResult (current (initialApp, []))) = Returns ?stream"
    by (simp add: sampleEnv_def)
  have h2: "failure ?stream = None"
    by simp
  have p: "parseJSON sampleEnv = JSON_parse"
    by (simp add: sampleEnv_def)
  have c: "filter accepted (List.map_filter JSON_parse (candidates (concat (chunks ?stream))))
      = [JObj [(js ''path'', JStr (js ''a.ts'')), (js ''content'', JStr (js ''x''))]]"
    by code_simp
  have b: "snd (feedChunks JSON_parse ((initialApp, []), []) (chunks ?stream)) = js ''{\"path\":\"b.ts\",''"
    by code_simp
  have e: "errorMessage (current (initialApp, [])) = None"
    by (simp add: current_def initialApp_def)
  from stream_end_truncation [of sampleEnv sampleFiles "(initialApp, [])" ?stream] h1 h2
  have "files_of (current (stage4 sampleEnv sampleFiles (initialApp, [])))
         = filter accepted (List.map_filter (parseJSON sampleEnv) (candidates (concat (chunks ?stream))))
     \<and> appState (current (stage4 sampleEnv sampleFiles (initialApp, []))) = reimplemented
     \<and> errorMessage (current (stage4 sampleEnv sampleFiles (initialApp, []))) = errorMessage (current (initialApp, []))"
    by blast
  then show ?thesis
    using h1 b c e p by simp
qed

text \<open>
  C8 (no deduplication). A pass appends to the record list the accepted candidates of
  its buffer, in their order in the text, and nothing else: the list after is the list
  before followed by them, a filter of the candidate sequence in which equal paths play
  no part. Across a whole stream the list is the one of the concatenated text. Every
  state change inside the stream loop is the append of one record at the end.
\<close>

theorem records_append_only:
  "files_of (current (fst (processBuffer parse (r, b))))
     = files_of (current r) @ filter accepted (List.map_filter parse (candidates b))
   \<and> files_of (current (fst (feedChunks parse (r, []) cs)))
     = files_of (current r) @ filter accepted (List.map_filter parse (candidates (concat cs)))
   \<and> (\<exists>ss. states (fst (feedChunks parse (r, b) cs)) = states r @ ss
          \<and> successively (\<lambda>s s'. \<exists>f. s' = appendFile f s \<and> files_of s' = files_of s @ [f])
               (current r # ss))"
proof -
  obtain fs where "fst (feedChunks parse (r, b) cs) = appendAll fs r"
    using feedChunks_appendAll by blast
  moreover from states_appendAll [of fs r] obtain ss where
    "states (appendAll fs r) = states r @ ss"
    "successively (\<lambda>s s'. \<exists>f. s' = appendFile f s \<and> files_of s' = files_of s @ [f])
       (current r # ss)"
    by blast
  ultimately have "\<exists>ss. states (fst (feedChunks parse (r, b) cs)) = states r @ ss
          \<and> successively (\<lambda>s s'. \<exists>f. s' = appendFile f s \<and> files_of s' = files_of s @ [f])
               (current r # ss)"
    by auto
  then show ?thesis
    by (simp add: processBuffer_candidates feedChunks_emitted files_of_appendAll emitted_def)
qed

text \<open>C8 at a concrete stream: two records with the same path are both kept, in arrival order.\<close>

theorem records_append_only_witness:
  \<open>files_of (current (fst (feedChunks JSON_parse ((initialApp, []), [])
       [js ''{"path":"a","content":"1"}{"pa'', js ''th":"a","content":"2"}''])))
     = [JObj [(js ''path'', JStr (js ''a'')), (js ''content'', JStr (js ''1''))],
        JObj [(js ''path'', JStr (js ''a'')), (js ''content'', JStr (js ''2''))]]\<close>
proof -
  let ?cs = \<open>[js ''{"path":"a","content":"1"}{"pa'', js ''th":"a","content":"2"}'']\<close>
  have "files_of (current (initialApp, [])) @ filter accepted (List.map_filter JSON_parse (candidates (concat ?cs)))
     = [JObj [(js ''path'', JStr (js ''a'')), (js ''content'', JStr (js ''1''))],
        JObj [(js ''path'', JStr (js ''a'')), (js ''content'', JStr (js ''2''))]]"
    by code_simp
  then show ?thesis
    using records_append_only [of JSON_parse "(initialApp, [])" "[]" ?cs] by simp
qed

section \<open>Claims about the GitHub service\<close>

text \<open>
  C6 (no retry on 404). A response with a status below 500 is returned by
  \<open>performFetch\<close> at once: one \<open>fetch\<close> call, no wait. A wait happens exactly when
  retries are left and the call returned a status of 500 or more or threw the TypeError
  \<open>Failed to fetch\<close>. When the repository-details request answers 404, the run makes that
  one call and ends in the error state with the message of \<open>getDefaultBranch\<close> for 404
  inside the sentence \<open>getRepoFiles\<close> wraps around it; 401 and 403 have messages of
  their own.
\<close>

theorem not_found_no_retry:
  "(net k = Returns resp \<and> status resp < 500
      \<longrightarrow> performFetch net k retries backoff = \<lparr>result = Returns resp, waits = [], calls = k + 1\<rparr>)
   \<and> (waits (performFetch net k retries backoff) \<noteq> [] \<longleftrightarrow>
        0 < retries \<and> ((\<exists>resp. net k = Returns resp \<and> 500 \<le> status resp)
                       \<or> net k = Throws (TypeError (js ''Failed to fetch''))))
   \<and> (repoUrl (current r0) \<noteq> []
        \<and> parseGithubUrl (parseURL env) (repoUrl (current r0)) = Returns (owner, repo)
        \<and> fetch env (GITHUB_API_BASE @ js ''/'' @ owner @ js ''/'' @ repo)
             (getHeaders (githubToken (current r0))) 0 = Returns notFound
        \<and> status notFound = 404
      \<longrightarrow> performFetch (fetch env (GITHUB_API_BASE @ js ''/'' @ owner @ js ''/'' @ repo)
                            (getHeaders (githubToken (current r0)))) 0 3 300
            = \<lparr>result = Returns notFound, waits = [], calls = 1\<rparr>
          \<and> getDefaultBranch (fetch env) owner repo (githubToken (current r0))
            = Throws (Error (js ''Repository not found. It may be private or spelled incorrectly.''))
          \<and> appState (current (onAnalyzeRepo env r0)) = error
          \<and> errorMessage (current (onAnalyzeRepo env r0))
            = Some (js ''Could not download repository. Reason: Repository not found. It may be private or spelled incorrectly.''))
   \<and> (fetch' (GITHUB_API_BASE @ js ''/'' @ owner @ js ''/'' @ repo) (getHeaders token) 0 = Returns denied
        \<and> (status denied = 401 \<or> status denied = 403)
      \<longrightarrow> getDefaultBranch fetch' owner repo token
            = Throws (Error (if status denied = 403
                then js ''GitHub API rate limit exceeded. Please provide a Personal Access Token to continue.''
                else js ''The provided GitHub token is invalid or expired.'')))"
proof (intro conjI)
  show "net k = Returns resp \<and> status resp < 500
      \<longrightarrow> performFetch net k retries backoff = \<lparr>result = Returns resp, waits = [], calls = k + 1\<rparr>"
    by (simp add: performFetch_immediate)
next
  show "waits (performFetch net k retries backoff) \<noteq> [] \<longleftrightarrow>
        0 < retries \<and> ((\<exists>resp. net k = Returns resp \<and> 500 \<le> status resp)
                       \<or> net k = Throws (TypeError (js ''Failed to fetch'')))"
    by (rule performFetch_retry_iff)
next
  let ?url = "GITHUB_API_BASE @ js ''/'' @ owner @ js ''/'' @ repo"
  let ?token = "githubToken (current r0)"
  show "repoUrl (current r0) \<noteq> []
        \<and> parseGithubUrl (parseURL env) (repoUrl (current r0)) = Returns (owner, repo)
        \<and> fetch env ?url (getHeaders ?token) 0 = Returns notFound
        \<and> status notFound = 404
      \<longrightarrow> performFetch (fetch env ?url (getHeaders ?token)) 0 3 300
            = \<lparr>result = Returns notFound, waits = [], calls = 1\<rparr>
          \<and> getDefaultBranch (fetch env) owner repo ?token
            = Throws (Error (js ''Repository not found. It may be private or spelled incorrectly.''))
          \<and> appState (current (onAnalyzeRepo env r0)) = error
          \<and> errorMessage (current (onAnalyzeRepo env r0))
            = Some (js ''Could not download repository. Reason: Repository not found. It may be private or spelled incorrectly.'')"
  proof
    assume h: "repoUrl (current r0) \<noteq> []
        \<and> parseGithubUrl (parseURL env) (repoUrl (current r0)) = Returns (owner, repo)
        \<and> fetch env ?url (getHeaders ?token) 0 = Returns notFound
        \<and> status notFound = 404"
    have pf: "performFetch (fetch env ?url (getHeaders ?token)) 0 3 300
            = \<lparr>result = Returns notFound, waits = [], calls = 1\<rparr>"
      using h performFetch_immediate [of "fetch env ?url (getHeaders ?token)" 0 notFound 3 300] by simp
    have db: "getDefaultBranch (fetch env) owner repo ?token
            = Throws (Error (js ''Repository not found. It may be private or spelled incorrectly.''))"
      using h getDefaultBranch_not_ok [of "fetch env" owner repo ?token notFound]
      by (simp add: ok_def)
    have rf: "getRepoFiles (fetch env) (fetchRest env) owner repo ?token
        = Throws (Error (js ''Could not download repository. Reason: Repository not found. It may be private or spelled incorrectly.''))"
      by (simp add: getRepoFiles_def db js_def)
    have "current (onAnalyzeRepo env r0) = handleError
        (js ''Could not download repository. Reason: Repository not found. It may be private or spelled incorrectly.'')
        (current (commit (updateStatus 1 in_progress)
           (commit (\<lambda>s. s\<lparr>appState := loading\<rparr>) (commit resetState r0))))"
      using h by (simp add: onAnalyzeRepo_def Let_def rf catchError_def current_commit)
    then show "performFetch (fetch env ?url (getHeaders ?token)) 0 3 300
            = \<lparr>result = Returns notFound, waits = [], calls = 1\<rparr>
          \<and> getDefaultBranch (fetch env) owner repo ?token
            = Throws (Error (js ''Repository not found. It may be private or spelled incorrectly.''))
          \<and> appState (current (onAnalyzeRepo env r0)) = error
          \<and> errorMessage (current (onAnalyzeRepo env r0))
            = Some (js ''Could not download repository. Reason: Repository not found. It may be private or spelled incorrectly.'')"
      using pf db by (simp add: handleError_fields)
  qed
next
  show "fetch' (GITHUB_API_BASE @ js ''/'' @ owner @ js ''/'' @ repo) (getHeaders token) 0 = Returns denied
        \<and> (status denied = 401 \<or> status denied = 403)
      \<longrightarrow> getDefaultBranch fetch' owner repo token
            = Throws (Error (if status denied = 403
                then js ''GitHub API rate limit exceeded. Please provide a Personal Access Token to continue.''
                else js ''The provided GitHub token is invalid or expired.''))"
    using getDefaultBranch_not_ok [of fetch' owner repo token denied]
    by (auto simp: ok_def)
qed

text \<open>C6 at a concrete run: the sample service answering 404 to every call.\<close>

theorem not_found_no_retry_witness:
  \<open>repoUrl (current (initialApp, [])) \<noteq> []
   \<and> parseGithubUrl (parseURL sampleEnv) (repoUrl (current (initialApp, []))) = Returns (js ''angular'', js ''angular'')
   \<and> performFetch (\<lambda>k. Returns \<lparr>status = 404, statusText = js ''Not Found'', json_body = Returns JNull\<rparr>) 0 3 300
       = \<lparr>result = Returns \<lparr>status = 404, statusText = js ''Not Found'', json_body = Returns JNull\<rparr>,
          waits = [], calls = 1\<rparr>
   \<and> appState (current (onAnalyzeRepo
         (sampleEnv\<lparr>fetch := \<lambda>url headers k. Returns \<lparr>status = 404, statusText = js ''Not Found'', json_body = Returns JNull\<rparr>\<rparr>)
         (initialApp, []))) = error
   \<and> errorMessage (current (onAnalyzeRepo
         (sampleEnv\<lparr>fetch := \<lambda>url headers k. Returns \<lparr>status = 404, statusText = js ''Not Found'', json_body = Returns JNull\<rparr>\<rparr>)
         (initialApp, [])))
       = Some (js ''Could not download repository. Reason: Repository not found. It may be private or spelled incorrectly.'')\<close>
proof -
  let ?resp = \<open>\<lparr>status = 404, statusText = js ''Not Found'', json_body = Returns JNull\<rparr>\<close>
  let ?env = \<open>sampleEnv\<lparr>fetch := \<lambda>url headers k. Returns ?resp\<rparr>\<close>
  let ?r0 = "(initialApp, []) :: run"
  have h1: "repoUrl (current ?r0) \<noteq> []"
    by code_simp
  have h2: "parseGithubUrl (parseURL ?env) (repoUrl (current ?r0)) = Returns (js ''angular'', js ''angular'')"
    by code_simp
  have h2': "parseGithubUrl (parseURL sampleEnv) (repoUrl (current ?r0)) = Returns (js ''angular'', js ''angular'')"
    by code_simp
  have h3: "fetch ?env (GITHUB_API_BASE @ js ''/'' @ js ''angular'' @ js ''/'' @ js ''angular'')
              (getHeaders (githubToken (current ?r0))) 0 = Returns ?resp"
    by simp
  have h4: "status ?resp = 404"
    by simp
  have h5: "(\<lambda>k. Returns ?resp) 0 = Returns ?resp \<and> status ?resp < 500"
    by simp
  from not_found_no_retry [of "\<lambda>k. Returns ?resp" 0 ?resp 3 300 ?r0 ?env "js ''angular''" "js ''angular''" ?resp]
    h1 h2 h3 h4 h5
  have "performFetch (\<lambda>k. Returns ?resp) 0 3 300 = \<lparr>result = Returns ?resp, waits = [], calls = 0 + 1\<rparr>
     \<and> appState (current (onAnalyzeRepo ?env ?r0)) = error
     \<and> errorMessage (current (onAnalyzeRepo ?env ?r0))
       = Some (js ''Could not download repository. Reason: Repository not found. It may be private or spelled incorrectly.'')"
    by blast
  with h1 h2' show ?thesis
    by simp
qed

text \<open>
  C7 (exponential backoff). When the first two calls answer 503 and the third 200,
  \<open>performFetch\<close> as the code calls it (3 retries, 300 ms) returns the third response
  after three calls and exactly the two waits 300 and 600. In general the number of
  waits is at most the number of retries, the \<open>i\<close>-th wait is the first delay doubled
  \<open>i\<close> times, so that each wait is longer than the one before, and the calls are one
  more than the waits.
\<close>

theorem backoff_503_503_200:
  "(net 0 = Returns a \<and> status a = 503 \<and> net 1 = Returns b \<and> status b = 503
      \<and> net 2 = Returns c \<and> status c = 200
    \<longrightarrow> performFetch net 0 3 300 = \<lparr>result = Returns c, waits = [300, 600], calls = 3\<rparr>)
   \<and> length (waits (performFetch net k retries backoff)) \<le> retries
   \<and> waits (performFetch net k retries backoff)
       = map (\<lambda>i. backoff * 2 ^ i) [0..<length (waits (performFetch net k retries backoff))]
   \<and> calls (performFetch net k retries backoff)
       = k + length (waits (performFetch net k retries backoff)) + 1
   \<and> (0 < backoff \<longrightarrow> sorted_wrt (<) (waits (performFetch net k retries backoff)))"
proof -
  have first: "net 0 = Returns a \<and> status a = 503 \<and> net 1 = Returns b \<and> status b = 503
      \<and> net 2 = Returns c \<and> status c = 200
    \<longrightarrow> performFetch net 0 3 300 = \<lparr>result = Returns c, waits = [300, 600], calls = 3\<rparr>"
  proof
    assume h: "net 0 = Returns a \<and> status a = 503 \<and> net 1 = Returns b \<and> status b = 503
      \<and> net 2 = Returns c \<and> status c = 200"
    have h': "net (Suc 0) = Returns b" "net (Suc (Suc 0)) = Returns c"
      using h by (simp_all add: numeral_2_eq_2)
    have s3: "performFetch net (Suc (Suc 0)) (Suc 0) 1200
        = \<lparr>result = Returns c, waits = [], calls = 3\<rparr>"
      using h h' performFetch_immediate [of net "Suc (Suc 0)" c "Suc 0" 1200] by simp
    have s2: "performFetch net (Suc 0) 2 600 = \<lparr>result = Returns c, waits = [600], calls = 3\<rparr>"
      using h h' s3 by (subst performFetch.simps) (simp add: Let_def)
    show "performFetch net 0 3 300 = \<lparr>result = Returns c, waits = [300, 600], calls = 3\<rparr>"
      using h s2 by (subst performFetch.simps) (simp add: Let_def)
  qed
  have inc: "0 < backoff \<Longrightarrow> sorted_wrt (<) (map (\<lambda>i. backoff * 2 ^ i) [0..<n])" for n
    by (simp add: sorted_wrt_iff_nth_less)
  show ?thesis
    using first performFetch_waits [of net k retries backoff]
      inc [of "length (waits (performFetch net k retries backoff))"]
    by metis
qed

text \<open>C7 at a concrete service: 503, 503, then 200.\<close>

theorem backoff_503_503_200_witness:
  \<open>performFetch
      (\<lambda>k. if k < 2 then Returns \<lparr>status = 503, statusText = js ''Service Unavailable'', json_body = Returns JNull\<rparr>
            else Returns \<lparr>status = 200, statusText = js ''OK'', json_body = Returns JNull\<rparr>) 0 3 300
     = \<lparr>result = Returns \<lparr>status = 200, statusText = js ''OK'', json_body = Returns JNull\<rparr>,
        waits = [300, 600], calls = 3\<rparr>
   \<and> length (waits (performFetch
      (\<lambda>k. if k < 2 then Returns \<lparr>status = 503, statusText = js ''Service Unavailable'', json_body = Returns JNull\<rparr>
            else Returns \<lparr>status = 200, statusText = js ''OK'', json_body = Returns JNull\<rparr>) 0 3 300)) \<le> 3
   \<and> sorted_wrt (<) (waits (performFetch
      (\<lambda>k. if k < 2 then Returns \<lparr>status = 503, statusText = js ''Service Unavailable'', json_body = Returns JNull\<rparr>
            else Returns \<lparr>status = 200, statusText = js ''OK'', json_body = Returns JNull\<rparr>) 0 3 300))\<close>
proof -
  let ?a = \<open>\<lparr>status = 503, statusText = js ''Service Unavailable'', json_body = Returns JNull\<rparr>\<close>
  let ?c = \<open>\<lparr>status = 200, statusText = js ''OK'', json_body = Returns JNull\<rparr>\<close>
  let ?net = "\<lambda>k::nat. if k < 2 then Returns ?a else Returns ?c"
  have h: "?net 0 = Returns ?a \<and> status ?a = 503 \<and> ?net 1 = Returns ?a \<and> status ?a = 503
      \<and> ?net 2 = Returns ?c \<and> status ?c = 200"
    by simp
  have p: "(0::nat) < 300"
    by simp
  from backoff_503_503_200 [of ?net ?a ?a ?c 0 3 300] h p show ?thesis
    by blast
qed

section \<open>Claims about the run\<close>

text \<open>
  C5 (stage transitions), as the code has it. A run started with a non-empty URL first
  resets: all five stages pending; error message, analysis, records, fetched files and
  expanded file cleared. From that state on, in every step stages 1 to 4 move only from
  pending to in-progress and from in-progress to complete or error, stage 5 moves only
  from pending straight to complete, no stage leaves complete or error, and every state
  has at most one stage in progress. This holds whatever the services answer.
\<close>

theorem stage_transitions:
  "(repoUrl s0 \<noteq> [] \<longrightarrow>
      (\<exists>rest. states (onAnalyzeRepo env (s0, [])) = s0 # resetState s0 # rest
         \<and> successively stage_step (resetState s0 # rest)
         \<and> list_all one_in_progress (resetState s0 # rest)))
   \<and> statuses (resetState s0) = [pending, pending, pending, pending, pending]
   \<and> errorMessage (resetState s0) = None \<and> analysisResult (resetState s0) = None
   \<and> reimplementedFiles (resetState s0) = None \<and> fetchedFiles (resetState s0) = None
   \<and> expandedFile (resetState s0) = None"
proof (intro conjI impI)
  assume url: "repoUrl s0 \<noteq> []"
  then have "repoUrl (current (s0, [])) \<noteq> []"
    by (simp add: current_def)
  from main_at_any [OF this, of env] obtain sts ss where
    ss: "states (onAnalyzeRepo env (s0, [])) = states (commit resetState (s0, [])) @ ss"
      "trace_ok (current (commit resetState (s0, [])) # ss)"
    by (auto simp: at_def leads_def)
  have "states (commit resetState (s0, [])) = [s0, resetState s0]"
    by (simp add: states_def commit_def)
  with ss show "\<exists>rest. states (onAnalyzeRepo env (s0, [])) = s0 # resetState s0 # rest
         \<and> successively stage_step (resetState s0 # rest)
         \<and> list_all one_in_progress (resetState s0 # rest)"
    by (simp add: trace_ok_def current_def commit_def)
next
  show "statuses (resetState s0) = [pending, pending, pending, pending, pending]"
    by (simp add: statuses_def resetState_def initialSteps_def)
qed (simp_all add: resetState_def)

text \<open>C5 at the sample run.\<close>

theorem stage_transitions_witness:
  "repoUrl initialApp \<noteq> []
   \<and> (\<exists>rest. states (onAnalyzeRepo sampleEnv (initialApp, [])) = initialApp # resetState initialApp # rest
         \<and> successively stage_step (resetState initialApp # rest)
         \<and> list_all one_in_progress (resetState initialApp # rest))
   \<and> statuses (resetState initialApp) = [pending, pending, pending, pending, pending]"
proof -
  have "repoUrl initialApp \<noteq> []"
    by code_simp
  with stage_transitions [of initialApp sampleEnv] show ?thesis
    by blast
qed

text \<open>
  C5 as stated fails for stage 5: the statuses a successful run passes through, without
  repetitions, show stage 5 going from pending to complete without ever being in
  progress.
\<close>

theorem stage_transitions_counterexample:
  "remdups_adj (map statuses (states (onAnalyzeRepo sampleEnv (initialApp, [])))) =
     [[pending, pending, pending, pending, pending],
      [in_progress, pending, pending, pending, pending],
      [complete, pending, pending, pending, pending],
      [complete, in_progress, pending, pending, pending],
      [complete, complete, pending, pending, pending],
      [complete, complete, in_progress, pending, pending],
      [complete, complete, complete, pending, pending],
      [complete, complete, complete, in_progress, pending],
      [complete, complete, complete, complete, pending],
      [complete, complete, complete, complete, complete]]"
  by code_simp

text \<open>
  C9 (fatal errors), as the code has it. In a run started with a non-empty URL, the
  first failure ends the run in the app state \<open>error\<close> with one message: the message of
  what was thrown (\<open>An unknown error occurred.\<close> for a non-error), or the message of its
  own for a repository without readable files. The stages after the failing one stay
  pending. A failure thrown while stage 1, 2, 3 or 4 is in progress marks that stage as
  error. Two failures happen while no stage is in progress, so that no stage is marked:
  a URL that does not parse (all stages pending) and the empty repository (stage 1
  is already complete and stays so). When nothing fails the run ends \<open>reimplemented\<close> with
  all stages complete.
\<close>

theorem fatal_error_propagation:
  "repoUrl s0 \<noteq> [] \<longrightarrow>
   (parseGithubUrl (parseURL env) (repoUrl s0) = Throws x
      \<longrightarrow> failed_with (message_of x) [pending, pending, pending, pending, pending]
            (current (onAnalyzeRepo env (s0, []))))
   \<and> (parseGithubUrl (parseURL env) (repoUrl s0) = Returns (owner, repo) \<longrightarrow>
       (getRepoFiles (fetch env) (fetchRest env) owner repo (githubToken s0) = Throws x
          \<longrightarrow> failed_with (message_of x) [status_error, pending, pending, pending, pending]
                (current (onAnalyzeRepo env (s0, []))))
       \<and> (getRepoFiles (fetch env) (fetchRest env) owner repo (githubToken s0) = Returns []
          \<longrightarrow> failed_with (js ''Repository appears to be empty or contains no readable files.'')
                [complete, pending, pending, pending, pending]
                (current (onAnalyzeRepo env (s0, []))))
       \<and> (getRepoFiles (fetch env) (fetchRest env) owner repo (githubToken s0) = Returns allFiles
            \<and> allFiles \<noteq> [] \<longrightarrow>
           (selectRelevantFiles env (map path allFiles) = Throws x
              \<longrightarrow> failed_with (message_of x) [complete, status_error, pending, pending, pending]
                    (current (onAnalyzeRepo env (s0, []))))
           \<and> (selectRelevantFiles env (map path allFiles) = Returns paths \<longrightarrow>
               (analyzeCode env (filter (\<lambda>f. path f \<in> set paths) allFiles) = Throws x
                  \<or> (\<exists>st. analyzeCode env (filter (\<lambda>f. path f \<in> set paths) allFiles) = Returns st
                         \<and> failure st = Some x)
                  \<longrightarrow> failed_with (message_of x) [complete, complete, status_error, pending, pending]
                        (current (onAnalyzeRepo env (s0, []))))
               \<and> (analyzeCode env (filter (\<lambda>f. path f \<in> set paths) allFiles) = Returns st
                    \<and> failure st = None \<longrightarrow>
                   (reimplementCode env (filter (\<lambda>f. path f \<in> set paths) allFiles)
                        (Some (concat (chunks st))) = Throws x
                      \<or> (\<exists>st'. reimplementCode env (filter (\<lambda>f. path f \<in> set paths) allFiles)
                                  (Some (concat (chunks st))) = Returns st' \<and> failure st' = Some x)
                      \<longrightarrow> failed_with (message_of x) [complete, complete, complete, status_error, pending]
                            (current (onAnalyzeRepo env (s0, []))))
                   \<and> (reimplementCode env (filter (\<lambda>f. path f \<in> set paths) allFiles)
                          (Some (concat (chunks st))) = Returns st' \<and> failure st' = None
                      \<longrightarrow> succeeded (current (onAnalyzeRepo env (s0, []))))))))"
proof
  assume url: "repoUrl s0 \<noteq> []"
  let ?r0 = "(s0, []) :: run"
  let ?final = "current (onAnalyzeRepo env ?r0)"
  have u: "repoUrl (current ?r0) \<noteq> []"
    using url by (simp add: current_pair)
  have 1: "parseGithubUrl (parseURL env) (repoUrl s0) = Throws x
      \<longrightarrow> failed_with (message_of x) [pending, pending, pending, pending, pending] ?final"
  proof
    assume "parseGithubUrl (parseURL env) (repoUrl s0) = Throws x"
    then have "onAnalyzeRepo env ?r0 = catchError x (commit (\<lambda>s. s\<lparr>appState := loading\<rparr>) (commit resetState ?r0))"
      using main_parse_throws [OF u, of env x] by (simp add: current_pair)
    then show "failed_with (message_of x) [pending, pending, pending, pending, pending] ?final"
      using catch_failed [OF loading_at [of ?r0], where x = x] by simp
  qed
  have 2: "parseGithubUrl (parseURL env) (repoUrl s0) = Returns (owner, repo) \<longrightarrow>
       (getRepoFiles (fetch env) (fetchRest env) owner repo (githubToken s0) = Throws x
          \<longrightarrow> failed_with (message_of x) [status_error, pending, pending, pending, pending] ?final)"
  proof (intro impI)
    assume p: "parseGithubUrl (parseURL env) (repoUrl s0) = Returns (owner, repo)"
      and g: "getRepoFiles (fetch env) (fetchRest env) owner repo (githubToken s0) = Throws x"
    have "onAnalyzeRepo env ?r0 = catchError x (commit (updateStatus 1 in_progress)
         (commit (\<lambda>s. s\<lparr>appState := loading\<rparr>) (commit resetState ?r0)))"
      using main_fetch_throws [OF u, of env owner repo x] p g by (simp add: current_pair)
    then show "failed_with (message_of x) [status_error, pending, pending, pending, pending] ?final"
      using catch_failed [OF stage1_begin [of ?r0], where x = x] by simp
  qed
  have 3: "parseGithubUrl (parseURL env) (repoUrl s0) = Returns (owner, repo) \<longrightarrow>
       (getRepoFiles (fetch env) (fetchRest env) owner repo (githubToken s0) = Returns []
          \<longrightarrow> failed_with (js ''Repository appears to be empty or contains no readable files.'')
                [complete, pending, pending, pending, pending] ?final)"
  proof (intro impI)
    assume p: "parseGithubUrl (parseURL env) (repoUrl s0) = Returns (owner, repo)"
      and g: "getRepoFiles (fetch env) (fetchRest env) owner repo (githubToken s0) = Returns []"
    let ?m = "js ''Repository appears to be empty or contains no readable files.''"
    have eq: "onAnalyzeRepo env ?r0 = commit (handleError ?m) (afterStage1 ?r0)"
      using main_empty [OF u, of env owner repo] p g by (simp add: current_pair)
    have "at [complete, pending, pending, pending, pending] (commit resetState ?r0)
        (commit (handleError ?m) (afterStage1 ?r0))"
      using at_handleError [OF afterStage1_at [of ?r0], where m = ?m] by simp
    then have "statuses ?final = [complete, pending, pending, pending, pending]"
      by (simp add: eq at_def statuses_ws)
    then show "failed_with ?m [complete, pending, pending, pending, pending] ?final"
      by (simp add: failed_with_def eq current_commit handleError_fields)
  qed
  have rest: "parseGithubUrl (parseURL env) (repoUrl s0) = Returns (owner, repo) \<Longrightarrow>
      getRepoFiles (fetch env) (fetchRest env) owner repo (githubToken s0) = Returns allFiles \<Longrightarrow>
      allFiles \<noteq> [] \<Longrightarrow> onAnalyzeRepo env ?r0 = stage2 env allFiles (afterStage1 ?r0)"
    using main_ok [OF u, of env owner repo allFiles] by (simp add: current_pair)
  note S2 = stage2_flat [OF afterStage1_at [of ?r0] afterStage1_fields(1) [of ?r0],
      where env = env and allFiles = allFiles]
  show "(parseGithubUrl (parseURL env) (repoUrl s0) = Throws x
      \<longrightarrow> failed_with (message_of x) [pending, pending, pending, pending, pending] ?final)
   \<and> (parseGithubUrl (parseURL env) (repoUrl s0) = Returns (owner, repo) \<longrightarrow>
       (getRepoFiles (fetch env) (fetchRest env) owner repo (githubToken s0) = Throws x
          \<longrightarrow> failed_with (message_of x) [status_error, pending, pending, pending, pending] ?final)
       \<and> (getRepoFiles (fetch env) (fetchRest env) owner repo (githubToken s0) = Returns []
          \<longrightarrow> failed_with (js ''Repository appears to be empty or contains no readable files.'')
                [complete, pending, pending, pending, pending] ?final)
       \<and> (getRepoFiles (fetch env) (fetchRest env) owner repo (githubToken s0) = Returns allFiles
            \<and> allFiles \<noteq> [] \<longrightarrow>
           (selectRelevantFiles env (map path allFiles) = Throws x
              \<longrightarrow> failed_with (message_of x) [complete, status_error, pending, pending, pending] ?final)
           \<and> (selectRelevantFiles env (map path allFiles) = Returns paths \<longrightarrow>
               (analyzeCode env (filter (\<lambda>f. path f \<in> set paths) allFiles) = Throws x
                  \<or> (\<exists>st. analyzeCode env (filter (\<lambda>f. path f \<in> set paths) allFiles) = Returns st
                         \<and> failure st = Some x)
                  \<longrightarrow> failed_with (message_of x) [complete, complete, status_error, pending, pending] ?final)
               \<and> (analyzeCode env (filter (\<lambda>f. path f \<in> set paths) allFiles) = Returns st
                    \<and> failure st = None \<longrightarrow>
                   (reimplementCode env (filter (\<lambda>f. path f \<in> set paths) allFiles)
                        (Some (concat (chunks st))) = Throws x
                      \<or> (\<exists>st'. reimplementCode env (filter (\<lambda>f. path f \<in> set paths) allFiles)
                                  (Some (concat (chunks st))) = Returns st' \<and> failure st' = Some x)
                      \<longrightarrow> failed_with (message_of x) [complete, complete, complete, status_error, pending] ?final)
                   \<and> (reimplementCode env (filter (\<lambda>f. path f \<in> set paths) allFiles)
                          (Some (concat (chunks st))) = Returns st' \<and> failure st' = None
                      \<longrightarrow> succeeded ?final)))))"
  proof (intro conjI impI; (elim conjE)?)
    show "parseGithubUrl (parseURL env) (repoUrl s0) = Throws x \<Longrightarrow>
        failed_with (message_of x) [pending, pending, pending, pending, pending] ?final"
      using 1 by simp
    show "parseGithubUrl (parseURL env) (repoUrl s0) = Returns (owner, repo) \<Longrightarrow>
        getRepoFiles (fetch env) (fetchRest env) owner repo (githubToken s0) = Throws x \<Longrightarrow>
        failed_with (message_of x) [status_error, pending, pending, pending, pending] ?final"
      using 2 by simp
    show "parseGithubUrl (parseURL env) (repoUrl s0) = Returns (owner, repo) \<Longrightarrow>
        getRepoFiles (fetch env) (fetchRest env) owner repo (githubToken s0) = Returns [] \<Longrightarrow>
        failed_with (js ''Repository appears to be empty or contains no readable files.'')
                [complete, pending, pending, pending, pending] ?final"
      using 3 by simp
    show "parseGithubUrl (parseURL env) (repoUrl s0) = Returns (owner, repo) \<Longrightarrow>
        getRepoFiles (fetch env) (fetchRest env) owner repo (githubToken s0) = Returns allFiles \<Longrightarrow>
        allFiles \<noteq> [] \<Longrightarrow> selectRelevantFiles env (map path allFiles) = Throws x \<Longrightarrow>
        failed_with (message_of x) [complete, status_error, pending, pending, pending] ?final"
      using rest S2(1) [of x] by simp
    show "parseGithubUrl (parseURL env) (repoUrl s0) = Returns (owner, repo) \<Longrightarrow>
        getRepoFiles (fetch env) (fetchRest env) owner repo (githubToken s0) = Returns allFiles \<Longrightarrow>
        allFiles \<noteq> [] \<Longrightarrow> selectRelevantFiles env (map path allFiles) = Returns paths \<Longrightarrow>
        analyzeCode env (filter (\<lambda>f. path f \<in> set paths) allFiles) = Throws x
          \<or> (\<exists>st. analyzeCode env (filter (\<lambda>f. path f \<in> set paths) allFiles) = Returns st
                 \<and> failure st = Some x) \<Longrightarrow>
        failed_with (message_of x) [complete, complete, status_error, pending, pending] ?final"
      using rest S2(2) [of paths x] by simp
    show "parseGithubUrl (parseURL env) (repoUrl s0) = Returns (owner, repo) \<Longrightarrow>
        getRepoFiles (fetch env) (fetchRest env) owner repo (githubToken s0) = Returns allFiles \<Longrightarrow>
        allFiles \<noteq> [] \<Longrightarrow> selectRelevantFiles env (map path allFiles) = Returns paths \<Longrightarrow>
        analyzeCode env (filter (\<lambda>f. path f \<in> set paths) allFiles) = Returns st \<Longrightarrow>
        failure st = None \<Longrightarrow>
        reimplementCode env (filter (\<lambda>f. path f \<in> set paths) allFiles) (Some (concat (chunks st))) = Throws x
          \<or> (\<exists>st'. reimplementCode env (filter (\<lambda>f. path f \<in> set paths) allFiles)
                      (Some (concat (chunks st))) = Returns st' \<and> failure st' = Some x) \<Longrightarrow>
        failed_with (message_of x) [complete, complete, complete, status_error, pending] ?final"
      using rest S2(3) [of paths st x] by simp
    show "parseGithubUrl (parseURL env) (repoUrl s0) = Returns (owner, repo) \<Longrightarrow>
        getRepoFiles (fetch env) (fetchRest env) owner repo (githubToken s0) = Returns allFiles \<Longrightarrow>
        allFiles \<noteq> [] \<Longrightarrow> selectRelevantFiles env (map path allFiles) = Returns paths \<Longrightarrow>
        analyzeCode env (filter (\<lambda>f. path f \<in> set paths) allFiles) = Returns st \<Longrightarrow>
        failure st = None \<Longrightarrow>
        reimplementCode env (filter (\<lambda>f. path f \<in> set paths) allFiles) (Some (concat (chunks st)))
          = Returns st' \<Longrightarrow>
        failure st' = None \<Longrightarrow> succeeded ?final"
      using rest S2(4) [of paths st st'] by simp
  qed
qed

text \<open>C9 at a concrete run: the re-implementation stream breaks, stage 4 is marked, stage 5 stays pending.\<close>

theorem fatal_error_propagation_witness:
  \<open>repoUrl initialApp \<noteq> []
   \<and> parseGithubUrl (parseURL brokenStreamEnv) (repoUrl initialApp) = Returns (js ''angular'', js ''angular'')
   \<and> getRepoFiles (fetch brokenStreamEnv) (fetchRest brokenStreamEnv) (js ''angular'') (js ''angular'')
        (githubToken initialApp) = Returns sampleFiles
   \<and> sampleFiles \<noteq> []
   \<and> selectRelevantFiles brokenStreamEnv (map path sampleFiles) = Returns [js ''a.ts'']
   \<and> analyzeCode brokenStreamEnv (filter (\<lambda>f. path f \<in> set [js ''a.ts'']) sampleFiles)
       = Returns \<lparr>chunks = [js ''# Rep'', js ''ort''], failure = None\<rparr>
   \<and> reimplementCode brokenStreamEnv (filter (\<lambda>f. path f \<in> set [js ''a.ts'']) sampleFiles)
        (Some (concat (chunks \<lparr>chunks = [js ''# Rep'', js ''ort''], failure = None\<rparr>)))
       = Returns \<lparr>chunks = [js ''{"path":"a.ts","content":"x"}{"pa''],
                  failure = Some (Error (js ''stream broke''))\<rparr>
   \<and> failed_with (js ''stream broke'') [complete, complete, complete, status_error, pending]
        (current (onAnalyzeRepo brokenStreamEnv (initialApp, [])))\<close>
proof -
  let ?st = \<open>\<lparr>chunks = [js ''# Rep'', js ''ort''], failure = None\<rparr> :: Stream\<close>
  let ?st' = \<open>\<lparr>chunks = [js ''{"path":"a.ts","content":"x"}{"pa''],
                 failure = Some (Error (js ''stream broke''))\<rparr> :: Stream\<close>
  let ?rf = \<open>filter (\<lambda>f. path f \<in> set [js ''a.ts'']) sampleFiles\<close>
  have h0: "repoUrl initialApp \<noteq> []"
    by code_simp
  have h1: "parseGithubUrl (parseURL brokenStreamEnv) (repoUrl initialApp) = Returns (js ''angular'', js ''angular'')"
    by code_simp
  have h2: "getRepoFiles (fetch brokenStreamEnv) (fetchRest brokenStreamEnv) (js ''angular'') (js ''angular'')
        (githubToken initialApp) = Returns sampleFiles"
    by code_simp
  have h3: "sampleFiles \<noteq> []"
    by (simp add: sampleFiles_def)
  have h4: "selectRelevantFiles brokenStreamEnv (map path sampleFiles) = Returns [js ''a.ts'']"
    by (simp add: brokenStreamEnv_def sampleEnv_def)
  have h5: "analyzeCode brokenStreamEnv ?rf = Returns ?st"
    by (simp add: brokenStreamEnv_def sampleEnv_def)
  have h6: "failure ?st = None"
    by simp
  have h7: "reimplementCode brokenStreamEnv ?rf (Some (concat (chunks ?st))) = Returns ?st'"
    by (simp add: brokenStreamEnv_def sampleEnv_def)
  have h8: "failure ?st' = Some (Error (js ''stream broke''))"
    by simp
  have m: "message_of (Error (js ''stream broke'')) = js ''stream broke''"
    by simp
  from fatal_error_propagation [of initialApp brokenStreamEnv "Error (js ''stream broke'')"
      "js ''angular''" "js ''angular''" sampleFiles "[js ''a.ts'']" ?st ?st']
    h0 h1 h2 h3 h4 h5 h6 h7 h8
  have "failed_with (message_of (Error (js ''stream broke''))) [complete, complete, complete, status_error, pending]
        (current (onAnalyzeRepo brokenStreamEnv (initialApp, [])))"
    by blast
  with h0 h1 h2 h3 h4 h5 h7 m show ?thesis
    by simp
qed

text \<open>
  C9 as stated fails for the empty repository: stage 1 is set to complete before the
  check, no stage is in progress when the error is handled, and no stage is marked as
  error.
\<close>

theorem fatal_error_propagation_counterexample:
  "getRepoFiles (fetch emptyRepoEnv) (fetchRest emptyRepoEnv) (js ''angular'') (js ''angular'')
        (githubToken initialApp) = Returns []
   \<and> appState (current (onAnalyzeRepo emptyRepoEnv (initialApp, []))) = error
   \<and> errorMessage (current (onAnalyzeRepo emptyRepoEnv (initialApp, [])))
       = Some (js ''Repository appears to be empty or contains no readable files.'')
   \<and> map statuses (states (onAnalyzeRepo emptyRepoEnv (initialApp, []))) =
       [[pending, pending, pending, pending, pending],
        [pending, pending, pending, pending, pending],
        [pending, pending, pending, pending, pending],
        [in_progress, pending, pending, pending, pending],
        [complete, pending, pending, pending, pending],
        [complete, pending, pending, pending, pending]]
   \<and> filter (\<lambda>st. st = status_error) (statuses (current (onAnalyzeRepo emptyRepoEnv (initialApp, [])))) = []"
  by code_simp

text \<open>
  C10 (frame of the error handler). \<open>handleError\<close> sets the app state to \<open>error\<close> and the
  message, and leaves the analysis, the records, the fetched files, the expanded file,
  the URL and the token as they are. With distinct stage ids, as they always are, the
  stage list changes only at the first stage in progress, if there is one, whose status
  becomes \<open>error\<close>. So when the re-implementation stream breaks, the final state still
  holds every record parsed before, the analysis and the fetched files.
\<close>

theorem handleError_frame:
  "analysisResult (handleError m s) = analysisResult s
   \<and> reimplementedFiles (handleError m s) = reimplementedFiles s
   \<and> fetchedFiles (handleError m s) = fetchedFiles s
   \<and> expandedFile (handleError m s) = expandedFile s
   \<and> repoUrl (handleError m s) = repoUrl s
   \<and> githubToken (handleError m s) = githubToken s
   \<and> appState (handleError m s) = error
   \<and> errorMessage (handleError m s) = Some m
   \<and> (distinct (map step_id (statusSteps s)) \<longrightarrow>
        statusSteps (handleError m s) =
          (case find (\<lambda>st. step_status st = in_progress) (statusSteps s) of
             None \<Rightarrow> statusSteps s
           | Some ip \<Rightarrow> map (\<lambda>st. if st = ip then st\<lparr>step_status := status_error\<rparr> else st) (statusSteps s)))
   \<and> (reimplementCode env relevantFiles (analysisResult (current r0)) = Returns stream
        \<and> failure stream = Some x \<longrightarrow>
        files_of (current (stage4 env relevantFiles r0))
          = filter accepted (List.map_filter (parseJSON env) (candidates (concat (chunks stream))))
        \<and> analysisResult (current (stage4 env relevantFiles r0)) = analysisResult (current r0)
        \<and> fetchedFiles (current (stage4 env relevantFiles r0)) = fetchedFiles (current r0)
        \<and> appState (current (stage4 env relevantFiles r0)) = error
        \<and> errorMessage (current (stage4 env relevantFiles r0)) = Some (message_of x))"
proof -
  have run: "reimplementCode env relevantFiles (analysisResult (current r0)) = Returns stream
        \<and> failure stream = Some x \<longrightarrow>
        files_of (current (stage4 env relevantFiles r0))
          = filter accepted (List.map_filter (parseJSON env) (candidates (concat (chunks stream))))
        \<and> analysisResult (current (stage4 env relevantFiles r0)) = analysisResult (current r0)
        \<and> fetchedFiles (current (stage4 env relevantFiles r0)) = fetchedFiles (current r0)
        \<and> appState (current (stage4 env relevantFiles r0)) = error
        \<and> errorMessage (current (stage4 env relevantFiles r0)) = Some (message_of x)"
  proof
    assume a: "reimplementCode env relevantFiles (analysisResult (current r0)) = Returns stream
        \<and> failure stream = Some x"
    let ?r2 = "commit (\<lambda>s. s\<lparr>reimplementedFiles := Some []\<rparr>) (commit (updateStatus 4 in_progress) r0)"
    let ?fs = "emitted (parseJSON env) (concat (chunks stream))"
    have eq: "current (stage4 env relevantFiles r0) = handleError (message_of x) (current (appendAll ?fs ?r2))"
      using a by (simp add: stage4_fails catchError_def current_commit)
    have "files_of (current ?r2) = []"
      by (simp add: current_commit files_of_def)
    then have f: "files_of (current (appendAll ?fs ?r2)) = ?fs"
      by (simp only: files_of_appendAll append_Nil)
    have fr: "analysisResult (current (appendAll ?fs ?r2)) = analysisResult (current r0)"
      "fetchedFiles (current (appendAll ?fs ?r2)) = fetchedFiles (current r0)"
      using appendAll_frame [of ?fs ?r2] by (simp_all add: current_commit updateStatus_frame)
    show "files_of (current (stage4 env relevantFiles r0))
          = filter accepted (List.map_filter (parseJSON env) (candidates (concat (chunks stream))))
        \<and> analysisResult (current (stage4 env relevantFiles r0)) = analysisResult (current r0)
        \<and> fetchedFiles (current (stage4 env relevantFiles r0)) = fetchedFiles (current r0)
        \<and> appState (current (stage4 env relevantFiles r0)) = error
        \<and> errorMessage (current (stage4 env relevantFiles r0)) = Some (message_of x)"
      using f fr by (simp add: eq handleError_fields files_of_def emitted_def)
  qed
  show ?thesis
    using run handleError_steps [of s m] by (simp add: handleError_fields)
qed

text \<open>C10 at a concrete run: one record was parsed before the stream broke.\<close>

theorem handleError_frame_witness:
  \<open>distinct (map step_id (statusSteps initialApp))
   \<and> reimplementCode brokenStreamEnv sampleFiles (analysisResult (current (initialApp, [])))
       = Returns \<lparr>chunks = [js ''{"path":"a.ts","content":"x"}{"pa''],
                  failure = Some (Error (js ''stream broke''))\<rparr>
   \<and> statusSteps (handleError (js ''stream broke'') initialApp) = statusSteps initialApp
   \<and> files_of (current (stage4 brokenStreamEnv sampleFiles (initialApp, [])))
       = [JObj [(js ''path'', JStr (js ''a.ts'')), (js ''content'', JStr (js ''x''))]]
   \<and> analysisResult (current (stage4 brokenStreamEnv sampleFiles (initialApp, []))) = None
   \<and> appState (current (stage4 brokenStreamEnv sampleFiles (initialApp, []))) = error
   \<and> errorMessage (current (stage4 brokenStreamEnv sampleFiles (initialApp, []))) = Some (js ''stream broke'')
   \<and> statuses (current (stage4 brokenStreamEnv sampleFiles (initialApp, [])))
       = [pending, pending, pending, status_error, pending]\<close>
proof -
  let ?st' = \<open>\<lparr>chunks = [js ''{"path":"a.ts","content":"x"}{"pa''],
                 failure = Some (Error (js ''stream broke''))\<rparr> :: Stream\<close>
  let ?r0 = "(initialApp, []) :: run"
  have h1: "distinct (map step_id (statusSteps initialApp))"
    by (simp add: initialApp_def initialSteps_def)
  have h2: "reimplementCode brokenStreamEnv sampleFiles (analysisResult (current ?r0)) = Returns ?st'"
    by (simp add: brokenStreamEnv_def sampleEnv_def)
  have h3: "failure ?st' = Some (Error (js ''stream broke''))"
    by simp
  have n: "find (\<lambda>st. step_status st = in_progress) (statusSteps initialApp) = None"
    by (simp add: initialApp_def initialSteps_def)
  have c: "filter accepted (List.map_filter (parseJSON brokenStreamEnv) (candidates (concat (chunks ?st'))))
      = [JObj [(js ''path'', JStr (js ''a.ts'')), (js ''content'', JStr (js ''x''))]]"
    by code_simp
  have a: "analysisResult (current ?r0) = None"
    by (simp add: current_def initialApp_def)
  have s: "statuses (current (stage4 brokenStreamEnv sampleFiles ?r0))
       = [pending, pending, pending, status_error, pending]"
    by code_simp
  from handleError_frame [of "js ''stream broke''" initialApp brokenStreamEnv sampleFiles ?r0 ?st'
      "Error (js ''stream broke'')"] h1 h2 h3
  have "statusSteps (handleError (js ''stream broke'') initialApp) =
          (case find (\<lambda>st. step_status st = in_progress) (statusSteps initialApp) of
             None \<Rightarrow> statusSteps initialApp
           | Some ip \<Rightarrow> map (\<lambda>st. if st = ip then st\<lparr>step_status := status_error\<rparr> else st) (statusSteps initialApp))"
    and "files_of (current (stage4 brokenStreamEnv sampleFiles ?r0))
          = filter accepted (List.map_filter (parseJSON brokenStreamEnv) (candidates (concat (chunks ?st'))))"
    and "analysisResult (current (stage4 brokenStreamEnv sampleFiles ?r0)) = analysisResult (current ?r0)"
    and "appState (current (stage4 brokenStreamEnv sampleFiles ?r0)) = error"
    and "errorMessage (current (stage4 brokenStreamEnv sampleFiles ?r0)) = Some (message_of (Error (js ''stream broke'')))"
    by blast+
  with h1 h2 n c a s show ?thesis
    by simp
qed

end
